theory Spec2Isabelle
  imports Main "HOL-Library.AList"
begin

section \<open>The tabular result aggregator of the hydrology notebook\<close>

text \<open>
  The notebook cell under study is
  \<^verbatim>\<open>
  separator = "|"
  columns = defaultdict(list)
  text = gs.read_command("r.univar", ..., separator=separator, flags="t")
  reader = csv.DictReader(text.splitlines(), delimiter=separator)
  for row in reader:
      for (k,v) in row.items():
          columns[k].append(v)
  watersheds = columns["zone"]
  means = np.array(columns["mean"], dtype=np.float32)
  stddevs = np.array(columns["stddev"], dtype=np.float32)
  \<close>
  The text is the captured output of an external command, so it is the input of the
  model. What the cell does with it is fixed by library objects: \<open>str.splitlines\<close>,
  \<open>csv.DictReader\<close> over \<open>csv.reader\<close> in the default (excel) dialect with the delimiter
  replaced, \<open>collections.defaultdict\<close>, and, for the conversion, \<open>np.array\<close> over Python's
  \<open>float\<close>. Each is embedded below as CPython and numpy define it, CPython in the version
  the notebook records in its metadata (3.8.10).

  Characters are \<^typ>\<open>char\<close> (code points below 256); a Python string may hold larger code
  points, of which only U+2028 and U+2029 are treated specially by the cell (as line
  boundaries).
\<close>

subsection \<open>\<open>str.splitlines\<close>\<close>

definition LF :: char where "LF = CHR 0x0A"
definition CR :: char where "CR = CHR 0x0D"

text \<open>The line boundaries of \<open>str.splitlines\<close> below code point 256.\<close>

definition is_linebreak :: "char \<Rightarrow> bool" where
  "is_linebreak c =
     (c = LF \<or> c = CR \<or> c = CHR 0x0B \<or> c = CHR 0x0C \<or> c = CHR 0x1C \<or>
      c = CHR 0x1D \<or> c = CHR 0x1E \<or> c = CHR 0x85)"

text \<open>
  \<open>splitlines_from cur s\<close> scans \<open>s\<close> with \<open>cur\<close> the line read so far. A boundary ends
  the line (CR LF counts as one boundary); the boundary is not kept; a last line without
  a boundary is kept when it is not empty.
\<close>

fun splitlines_from :: "string \<Rightarrow> string \<Rightarrow> string list" where
  "splitlines_from cur [] = (if cur = [] then [] else [cur])"
| "splitlines_from cur [c] =
     (if is_linebreak c then [cur] else [cur @ [c]])"
| "splitlines_from cur (c # c' # cs) =
     (if c = CR \<and> c' = LF then cur # splitlines_from [] cs
      else if is_linebreak c then cur # splitlines_from [] (c' # cs)
      else splitlines_from (cur @ [c]) (c' # cs))"

definition splitlines :: "string \<Rightarrow> string list" where
  "splitlines s = splitlines_from [] s"

subsection \<open>\<open>csv.reader\<close>: the parser of CPython's \<open>_csv\<close> module\<close>

text \<open>
  The dialect is the default one with \<open>delimiter=separator\<close>: quote character \<open>"\<close>,
  \<open>doublequote\<close> on, no escape character, \<open>skipinitialspace\<close> off, \<open>strict\<close> off, minimal
  quoting. The states for escape characters are therefore unreachable and left out.
\<close>

datatype parser_state =
  START_RECORD | START_FIELD | IN_FIELD | IN_QUOTED_FIELD | QUOTE_IN_QUOTED_FIELD | EAT_CRNL

text \<open>
  The exceptions that can end the loop: the three errors of the reader,
  \<open>field larger than field limit\<close>, \<open>new-line character seen in unquoted field\<close> and
  \<open>line contains NULL byte\<close> (all \<open>_csv.Error\<close>), and the TypeError of \<open>zip(None, row)\<close> in
  \<open>DictReader.__next__\<close>.
\<close>

datatype py_error =
  FieldLargerThanFieldLimit | NewlineInUnquotedField | LineContainsNul | FieldnamesNotIterable

definition NUL :: char where "NUL = CHR 0x00"

definition quotechar :: char where "quotechar = CHR 0x22"

text \<open>\<open>csv.field_size_limit()\<close>, which the notebook never changes.\<close>

definition field_limit :: nat where "field_limit = 131072"

text \<open>
  The reader object: \<open>row_fields\<close> is CPython's \<open>self->fields\<close> (the fields of the record
  so far) and \<open>field_buf\<close> is \<open>self->field\<close> (the characters of the field being read; its
  length is \<open>self->field_len\<close>).
\<close>

record reader_obj =
  state :: parser_state
  row_fields :: "string list"
  field_buf :: string

definition parse_reset :: reader_obj where
  "parse_reset = \<lparr>state = START_RECORD, row_fields = [], field_buf = []\<rparr>"

definition parse_save_field :: "reader_obj \<Rightarrow> reader_obj" where
  "parse_save_field self = self\<lparr>row_fields := row_fields self @ [field_buf self], field_buf := []\<rparr>"

definition parse_add_char :: "reader_obj \<Rightarrow> char \<Rightarrow> py_error + reader_obj" where
  "parse_add_char self c =
     (if field_limit \<le> length (field_buf self) then Inl FieldLargerThanFieldLimit
      else Inr (self\<lparr>field_buf := field_buf self @ [c]\<rparr>))"

text \<open>
  The character fed to the parser is \<open>Some c\<close>, or \<open>None\<close> for the end-of-line mark that
  the reader feeds after the last character of every line.
\<close>

definition ends_line :: "char option \<Rightarrow> bool" where
  "ends_line c = (c = None \<or> c = Some LF \<or> c = Some CR)"

definition after_line :: "char option \<Rightarrow> parser_state" where
  "after_line c = (if c = None then START_RECORD else EAT_CRNL)"

definition set_state :: "parser_state \<Rightarrow> reader_obj \<Rightarrow> reader_obj" where
  "set_state s self = self\<lparr>state := s\<rparr>"

definition start_field :: "char \<Rightarrow> reader_obj \<Rightarrow> char option \<Rightarrow> py_error + reader_obj" where
  "start_field delimiter self c =
     (if ends_line c then Inr (set_state (after_line c) (parse_save_field self))
      else if c = Some quotechar then Inr (set_state IN_QUOTED_FIELD self)
      else if c = Some delimiter then Inr (parse_save_field self)
      else map_sum id (set_state IN_FIELD) (parse_add_char self (the c)))"

definition parse_process_char :: "char \<Rightarrow> reader_obj \<Rightarrow> char option \<Rightarrow> py_error + reader_obj" where
  "parse_process_char delimiter self c =
     (case state self of
        START_RECORD \<Rightarrow>
          (if c = None then Inr self
           else if c = Some LF \<or> c = Some CR then Inr (set_state EAT_CRNL self)
           else start_field delimiter (set_state START_FIELD self) c)
      | START_FIELD \<Rightarrow> start_field delimiter self c
      | IN_FIELD \<Rightarrow>
          (if ends_line c then Inr (set_state (after_line c) (parse_save_field self))
           else if c = Some delimiter then Inr (set_state START_FIELD (parse_save_field self))
           else parse_add_char self (the c))
      | IN_QUOTED_FIELD \<Rightarrow>
          (if c = None then Inr self
           else if c = Some quotechar then Inr (set_state QUOTE_IN_QUOTED_FIELD self)
           else parse_add_char self (the c))
      | QUOTE_IN_QUOTED_FIELD \<Rightarrow>
          (if c = Some quotechar
           then map_sum id (set_state IN_QUOTED_FIELD) (parse_add_char self quotechar)
           else if c = Some delimiter then Inr (set_state START_FIELD (parse_save_field self))
           else if ends_line c then Inr (set_state (after_line c) (parse_save_field self))
           else map_sum id (set_state IN_FIELD) (parse_add_char self (the c)))
      | EAT_CRNL \<Rightarrow>
          (if c = Some LF \<or> c = Some CR then Inr self
           else if c = None then Inr (set_state START_RECORD self)
           else Inl NewlineInUnquotedField))"

text \<open>
  The characters of one line, in order; the first error stops the line. The reader of
  this version refuses a line with a NUL character (CPython accepts it from 3.11 on).
\<close>

fun process_chars :: "char \<Rightarrow> reader_obj \<Rightarrow> string \<Rightarrow> py_error + reader_obj" where
  "process_chars delimiter self [] = Inr self"
| "process_chars delimiter self (c # cs) =
     (if c = NUL then Inl LineContainsNul
      else case parse_process_char delimiter self (Some c) of
        Inl e \<Rightarrow> Inl e
      | Inr self' \<Rightarrow> process_chars delimiter self' cs)"

text \<open>
  The do-while loop of \<open>Reader_iternext\<close>: take lines until the parser is back at the start
  of a record. The result is the error, or \<open>None\<close> when the input is used up
  (StopIteration), or the record and the lines that remain.
\<close>

fun iternext_loop ::
  "char \<Rightarrow> reader_obj \<Rightarrow> string list \<Rightarrow> py_error + (string list \<times> string list) option" where
  "iternext_loop delimiter self [] =
     (if field_buf self \<noteq> [] \<or> state self = IN_QUOTED_FIELD
      then Inr (Some (row_fields (parse_save_field self), []))
      else Inr None)"
| "iternext_loop delimiter self (line # input) =
     (case process_chars delimiter self line of
        Inl e \<Rightarrow> Inl e
      | Inr self1 \<Rightarrow>
          (case parse_process_char delimiter self1 None of
             Inl e \<Rightarrow> Inl e
           | Inr self2 \<Rightarrow>
               if state self2 \<noteq> START_RECORD then iternext_loop delimiter self2 input
               else Inr (Some (row_fields self2, input))))"

definition Reader_iternext ::
  "char \<Rightarrow> string list \<Rightarrow> py_error + (string list \<times> string list) option" where
  "Reader_iternext delimiter input = iternext_loop delimiter parse_reset input"

text \<open>
  A call that returns a record has taken at least one line from the input; this is what
  makes the loops over the reader terminate.
\<close>

lemma iternext_loop_rest:
  "iternext_loop delimiter self input = Inr (Some (row, rest)) \<Longrightarrow> length rest \<le> length input"
proof (induction input arbitrary: self)
  case Nil
  then show ?case by (simp split: if_splits)
next
  case (Cons line input)
  then show ?case
    by (fastforce split: sum.splits if_splits)
qed

lemma Reader_iternext_rest:
  assumes "Reader_iternext delimiter input = Inr (Some (row, rest))"
  shows "length rest < length input"
proof (cases input)
  case Nil
  with assms show ?thesis by (simp add: Reader_iternext_def parse_reset_def)
next
  case (Cons line input')
  with assms show ?thesis
    by (auto simp: Reader_iternext_def split: sum.splits if_splits dest: iternext_loop_rest)
qed

subsection \<open>\<open>csv.DictReader\<close>\<close>

text \<open>
  A value of a row dictionary is a string, or \<open>None\<close> (the \<open>restval\<close> of a short row), or
  the list of surplus fields of a long row. A key is a field name, or \<open>None\<close> (the
  \<open>restkey\<close>). A dictionary is the list of its items in insertion order, keys distinct:
  \<^const>\<open>AList.update\<close> replaces the value of a key that is present and appends a new key,
  as a Python dictionary does.
\<close>

datatype cell = Str string | PyNone | PyList "string list"

type_synonym key = "string option"

type_synonym row_dict = "(key \<times> cell) list"

type_synonym table = "(key \<times> cell list) list"

record dictreader =
  reader_input :: "string list"
  fieldnames :: "string list option"

definition DictReader :: "string list \<Rightarrow> dictreader" where
  "DictReader f = \<lparr>reader_input = f, fieldnames = None\<rparr>"

text \<open>
  The \<open>fieldnames\<close> property: the first access reads one record from the reader; a
  StopIteration is swallowed and leaves the names unset.
\<close>

definition get_fieldnames :: "char \<Rightarrow> dictreader \<Rightarrow> py_error + dictreader" where
  "get_fieldnames delimiter self =
     (case fieldnames self of
        Some names \<Rightarrow> Inr self
      | None \<Rightarrow>
          (case Reader_iternext delimiter (reader_input self) of
             Inl e \<Rightarrow> Inl e
           | Inr None \<Rightarrow> Inr self
           | Inr (Some (row, rest)) \<Rightarrow> Inr \<lparr>reader_input = rest, fieldnames = Some row\<rparr>))"

text \<open>\<open>row = next(self.reader)\<close> followed by \<open>while row == []: row = next(self.reader)\<close>.\<close>

function next_nonblank ::
  "char \<Rightarrow> string list \<Rightarrow> py_error + (string list \<times> string list) option" where
  "next_nonblank delimiter input =
     (case Reader_iternext delimiter input of
        Inl e \<Rightarrow> Inl e
      | Inr None \<Rightarrow> Inr None
      | Inr (Some (row, rest)) \<Rightarrow>
          if row = [] then next_nonblank delimiter rest else Inr (Some (row, rest)))"
  by pat_completeness auto
termination
  by (relation "measure (\<lambda>(delimiter, input). length input)")
     (auto dest: Reader_iternext_rest)

declare next_nonblank.simps [simp del]

text \<open>
  The dictionary of one row: \<open>dict(zip(fieldnames, row))\<close>, then the surplus fields under
  the key \<open>None\<close>, or \<open>None\<close> under every field name the row is too short for.
\<close>

definition make_row_dict :: "string list \<Rightarrow> string list \<Rightarrow> row_dict" where
  "make_row_dict names row =
     (let d = fold (\<lambda>(k, v). AList.update (Some k) (Str v)) (zip names row) [];
          lf = length names;
          lr = length row
      in if lf < lr then AList.update None (PyList (drop lf row)) d
         else if lr < lf then fold (\<lambda>k. AList.update (Some k) PyNone) (drop lr names) d
         else d)"

text \<open>
  \<open>DictReader.__next__\<close>. The guard \<open>if self.line_num == 0\<close> before the first access to
  \<open>fieldnames\<close> is not modelled: the property reads the header only while the names are
  unset, and the names are unset exactly as long as no line has been read. A row read
  while the names are unset would make \<open>zip(self.fieldnames, row)\<close> raise a TypeError
  (\<open>get_fieldnames_unset\<close> below shows that this does not happen).
\<close>

definition DictReader_next ::
  "char \<Rightarrow> dictreader \<Rightarrow> py_error + (row_dict \<times> dictreader) option" where
  "DictReader_next delimiter self =
     (case get_fieldnames delimiter self of
        Inl e \<Rightarrow> Inl e
      | Inr self1 \<Rightarrow>
          (case next_nonblank delimiter (reader_input self1) of
             Inl e \<Rightarrow> Inl e
           | Inr None \<Rightarrow> Inr None
           | Inr (Some (row, rest)) \<Rightarrow>
               (case fieldnames self1 of
                  None \<Rightarrow> Inl FieldnamesNotIterable
                | Some names \<Rightarrow>
                    Inr (Some (make_row_dict names row, self1\<lparr>reader_input := rest\<rparr>)))))"

lemma next_nonblank_rest:
  "next_nonblank delimiter input = Inr (Some (row, rest)) \<Longrightarrow> length rest < length input"
proof (induction delimiter input rule: next_nonblank.induct)
  case (1 delimiter input)
  show ?case
  proof (cases "Reader_iternext delimiter input")
    case (Inl e)
    with "1.prems" show ?thesis
      by (simp add: next_nonblank.simps [of delimiter input])
  next
    case (Inr res)
    show ?thesis
    proof (cases res)
      case None
      with Inr "1.prems" show ?thesis
        by (simp add: next_nonblank.simps [of delimiter input])
    next
      case (Some p)
      obtain row' rest' where p: "p = (row', rest')" by (cases p)
      from Inr Some p have it: "Reader_iternext delimiter input = Inr (Some (row', rest'))"
        by simp
      then have less: "length rest' < length input" by (rule Reader_iternext_rest)
      show ?thesis
      proof (cases "row' = []")
        case True
        with it "1.prems" have "next_nonblank delimiter rest' = Inr (Some (row, rest))"
          by (simp add: next_nonblank.simps [of delimiter input])
        with "1.IH" [OF Inr Some p [symmetric] True] have "length rest < length rest'"
          by simp
        with less show ?thesis by simp
      next
        case False
        with it "1.prems" less show ?thesis
          by (simp add: next_nonblank.simps [of delimiter input])
      qed
    qed
  qed
qed

lemma get_fieldnames_rest:
  "get_fieldnames delimiter self = Inr self1 \<Longrightarrow>
     length (reader_input self1) \<le> length (reader_input self)"
  by (auto simp: get_fieldnames_def split: option.splits sum.splits
      dest: Reader_iternext_rest)

lemma DictReader_next_rest:
  "DictReader_next delimiter self = Inr (Some (d, self')) \<Longrightarrow>
     length (reader_input self') < length (reader_input self)"
  by (auto simp: DictReader_next_def split: option.splits sum.splits
      dest!: get_fieldnames_rest next_nonblank_rest)

lemma get_fieldnames_unset:
  assumes "get_fieldnames delimiter self = Inr self1" and "fieldnames self1 = None"
  shows "next_nonblank delimiter (reader_input self1) = Inr None"
proof -
  from assms have unset: "fieldnames self = None"
    by (auto simp: get_fieldnames_def split: option.splits)
  with assms have "Reader_iternext delimiter (reader_input self) = Inr None \<and> self1 = self"
    by (auto simp: get_fieldnames_def split: option.splits sum.splits)
  then show ?thesis
    by (simp add: next_nonblank.simps [of delimiter "reader_input self"])
qed

subsection \<open>The table and the loop of the cell\<close>

text \<open>
  \<open>columns\<close> is a \<open>defaultdict(list)\<close>: reading a key that is missing stores an empty
  list under it and returns that list, so a read returns the value and the table.
\<close>

definition dd_getitem :: "table \<Rightarrow> key \<Rightarrow> cell list \<times> table" where
  "dd_getitem columns k =
     (case map_of columns k of
        Some vs \<Rightarrow> (vs, columns)
      | None \<Rightarrow> ([], columns @ [(k, [])]))"

text \<open>\<open>columns[k].append(v)\<close>\<close>

definition append_value :: "key \<Rightarrow> cell \<Rightarrow> table \<Rightarrow> table" where
  "append_value k v columns =
     (case dd_getitem columns k of
        (vs, columns') \<Rightarrow> AList.update k (vs @ [v]) columns')"

text \<open>\<open>for (k,v) in row.items(): columns[k].append(v)\<close>\<close>

definition append_row :: "row_dict \<Rightarrow> table \<Rightarrow> table" where
  "append_row row columns = fold (\<lambda>(k, v). append_value k v) row columns"

text \<open>
  \<open>for row in reader\<close>: the result is the table as the loop leaves it and the error that
  ended the loop, if one did. An error of the reader leaves the rows appended so far in
  \<open>columns\<close>.
\<close>

function for_loop :: "char \<Rightarrow> dictreader \<Rightarrow> table \<Rightarrow> table \<times> py_error option" where
  "for_loop delimiter reader columns =
     (case DictReader_next delimiter reader of
        Inl e \<Rightarrow> (columns, Some e)
      | Inr None \<Rightarrow> (columns, None)
      | Inr (Some (row, reader')) \<Rightarrow> for_loop delimiter reader' (append_row row columns))"
  by pat_completeness auto
termination
  by (relation "measure (\<lambda>(delimiter, reader, columns). length (reader_input reader))")
     (auto dest: DictReader_next_rest)

declare for_loop.simps [simp del]

text \<open>The aggregation: the cell up to the end of the loop, from the text and the separator.\<close>

definition aggregate :: "char \<Rightarrow> string \<Rightarrow> table \<times> py_error option" where
  "aggregate separator text = for_loop separator (DictReader (splitlines text)) []"

subsection \<open>The cell as a transformer of the notebook's namespace\<close>









subsection \<open>The numeric conversion of a column\<close>

text \<open>
  \<open>means = np.array(columns["mean"], dtype=np.float32)\<close>. numpy receives the list of values
  only and stores every element with \<open>FLOAT_setitem\<close>: \<open>None\<close> becomes \<open>nan\<close>, and a string goes
  through Python's \<open>float(s)\<close> (\<open>PyFloat_FromString\<close>), whose
  \<open>ValueError("could not convert string to float: " + repr(s))\<close> ends the conversion; the
  double that \<open>float\<close> returns is cast to binary32. The functions below follow CPython's
  \<open>floatobject.c\<close>, \<open>pystrtod.c\<close> and \<open>dtoa.c\<close> and numpy's \<open>arraytypes.c\<close>.

  A binary floating-point value: \<open>Finite negative m e\<close> is \<open>m * 2 ^ e\<close> with the sign
  \<open>negative\<close>, where \<open>m\<close> is odd, or \<open>m = 0\<close> and \<open>e = 0\<close> for a zero. The sign of a \<open>nan\<close> is not
  kept.
\<close>

datatype ieee = NaN | Infinity bool | Finite bool nat int

text \<open>
  Rounding a positive fraction \<open>(num, den)\<close> to the nearest value with \<open>p\<close> significant bits,
  ties to even; \<open>emin\<close> is the exponent of the last bit of the subnormal values, and a
  result of \<open>2 ^ (emax + 1)\<close> or more is an infinity. \<open>scale2 q t\<close> is \<open>q / 2 ^ t\<close> and
  \<open>floor_log2 q\<close> is the exponent of the first bit of \<open>q\<close>.
\<close>

fun ilog2 :: "nat \<Rightarrow> nat" where
  "ilog2 n = (if n < 2 then 0 else Suc (ilog2 (n div 2)))"

declare ilog2.simps [simp del]

definition scale2 :: "nat \<times> nat \<Rightarrow> int \<Rightarrow> nat \<times> nat" where
  "scale2 q t =
     (case q of (num, den) \<Rightarrow>
        if 0 \<le> t then (num, den * 2 ^ nat t) else (num * 2 ^ nat (- t), den))"

definition floor_log2 :: "nat \<times> nat \<Rightarrow> int" where
  "floor_log2 q =
     (let c = int (ilog2 (fst q)) - int (ilog2 (snd q))
      in case scale2 q c of (n, d) \<Rightarrow> if d \<le> n then c else c - 1)"

fun odd_mantissa :: "nat \<Rightarrow> int \<Rightarrow> nat \<times> int" where
  "odd_mantissa m e =
     (if m = 0 then (0, 0)
      else if even m then odd_mantissa (m div 2) (e + 1)
      else (m, e))"

declare odd_mantissa.simps [simp del]

definition round_nearest_even :: "nat \<Rightarrow> int \<Rightarrow> int \<Rightarrow> bool \<Rightarrow> nat \<times> nat \<Rightarrow> ieee" where
  "round_nearest_even p emin emax negative q =
     (if fst q = 0 then Finite negative 0 0
      else
        let t = max (floor_log2 q - (int p - 1)) emin
        in case scale2 q t of (n, d) \<Rightarrow>
             let k = n div d;
                 r = n mod d;
                 k' = (if d < 2 * r \<or> (2 * r = d \<and> odd k) then k + 1 else k)
             in if 2 ^ nat (emax + 1 - t) \<le> k' then Infinity negative
                else case odd_mantissa k' t of (m, e) \<Rightarrow> Finite negative m e)"

text \<open>
  The double nearest to \<open>digits * 10 ^ e\<close> (\<open>_Py_dg_strtod\<close> rounds correctly; an overflow is
  an infinity and raises nothing here), and the cast of a double to binary32.
\<close>

definition decimal_to_double :: "bool \<Rightarrow> nat \<Rightarrow> int \<Rightarrow> ieee" where
  "decimal_to_double negative digits e =
     (if digits = 0 then Finite negative 0 0
      else round_nearest_even 53 (- 1074) 1023 negative
             (if 0 \<le> e then (digits * 10 ^ nat e, 1) else (digits, 10 ^ nat (- e))))"

definition double_to_float :: "ieee \<Rightarrow> ieee" where
  "double_to_float x =
     (case x of
        Finite negative m e \<Rightarrow> round_nearest_even 24 (- 149) 127 negative (scale2 (m, 1) (- e))
      | _ \<Rightarrow> x)"

text \<open>
  \<open>_Py_dg_strtod\<close>: an optional sign, digits with an optional point, and an exponent that
  is taken only when it has a digit. The result is the value and the characters left
  over, or \<open>None\<close> when nothing can be parsed (no digit, or more than \<open>MAX_DIGITS\<close> of them).
  The function clamps exponents beyond \<open>MAX_ABS_EXP\<close>, which does not change the value.
\<close>

definition is_digit :: "char \<Rightarrow> bool" where
  "is_digit c = (48 \<le> (of_char c :: nat) \<and> (of_char c :: nat) \<le> 57)"

definition digits_value :: "string \<Rightarrow> nat" where
  "digits_value ds = foldl (\<lambda>n c. 10 * n + (of_char c - 48)) 0 ds"

definition take_sign :: "string \<Rightarrow> bool \<times> string" where
  "take_sign s =
     (case s of
        [] \<Rightarrow> (False, [])
      | c # cs \<Rightarrow>
          if c = CHR ''-'' then (True, cs) else if c = CHR ''+'' then (False, cs) else (False, s))"

definition MAX_DIGITS :: nat where "MAX_DIGITS = 1000000000"

definition parse_exponent :: "string \<Rightarrow> int \<times> string" where
  "parse_exponent s =
     (case s of
        [] \<Rightarrow> (0, s)
      | c # cs \<Rightarrow>
          if c = CHR ''e'' \<or> c = CHR ''E'' then
            (case take_sign cs of (esign, s1) \<Rightarrow>
               let ds = takeWhile is_digit s1
               in if ds = [] then (0, s)
                  else (if esign then - int (digits_value ds) else int (digits_value ds),
                        dropWhile is_digit s1))
          else (0, s))"

definition dg_strtod :: "string \<Rightarrow> (ieee \<times> string) option" where
  "dg_strtod s00 =
     (case take_sign s00 of (negative, s1) \<Rightarrow>
        let ip = takeWhile is_digit s1;
            s2 = dropWhile is_digit s1;
            point = (s2 \<noteq> [] \<and> hd s2 = CHR ''.'');
            fp = (if point then takeWhile is_digit (tl s2) else []);
            s3 = (if point then dropWhile is_digit (tl s2) else s2)
        in if ip = [] \<and> fp = [] then None
           else if MAX_DIGITS < length (dropWhile (\<lambda>c. c = CHR ''0'') (ip @ fp)) \<or>
                   MAX_DIGITS < length fp then None
           else case parse_exponent s3 of (e, s4) \<Rightarrow>
                  Some (decimal_to_double negative (digits_value (ip @ fp)) (e - int (length fp)),
                        s4))"

text \<open>\<open>_Py_parse_inf_or_nan\<close>, tried when \<open>_Py_dg_strtod\<close> parses nothing.\<close>

definition Py_TOLOWER :: "char \<Rightarrow> char" where
  "Py_TOLOWER c =
     (let n = (of_char c :: nat) in if 65 \<le> n \<and> n \<le> 90 then char_of (n + 32) else c)"

definition case_insensitive_match :: "string \<Rightarrow> string \<Rightarrow> bool" where
  "case_insensitive_match s t = (map Py_TOLOWER (take (length t) s) = t)"

definition parse_inf_or_nan :: "string \<Rightarrow> (ieee \<times> string) option" where
  "parse_inf_or_nan p =
     (case take_sign p of (negate, s) \<Rightarrow>
        if case_insensitive_match s ''inf'' then
          Some (Infinity negate,
                if case_insensitive_match (drop 3 s) ''inity'' then drop 8 s else drop 3 s)
        else if case_insensitive_match s ''nan'' then Some (NaN, drop 3 s)
        else None)"

definition PyOS_string_to_double :: "string \<Rightarrow> (ieee \<times> string) option" where
  "PyOS_string_to_double s =
     (case dg_strtod s of Some r \<Rightarrow> Some r | None \<Rightarrow> parse_inf_or_nan s)"

text \<open>The whole string must be used up; \<open>None\<close> is the ValueError.\<close>

definition float_from_string_inner :: "string \<Rightarrow> ieee option" where
  "float_from_string_inner s =
     (case PyOS_string_to_double s of
        None \<Rightarrow> None
      | Some (x, rest) \<Rightarrow> if rest = [] then Some x else None)"

text \<open>
  \<open>_Py_string_to_number_with_underscores\<close>: an underscore is accepted between two digits
  and dropped; \<open>prev\<close> is the character before, \<open>NUL\<close> at the start.
\<close>

fun copy_without_underscores :: "char \<Rightarrow> string \<Rightarrow> string option" where
  "copy_without_underscores prev [] = (if prev = CHR ''_'' then None else Some [])"
| "copy_without_underscores prev (c # cs) =
     (if c = CHR ''_'' then
        (if is_digit prev then copy_without_underscores c cs else None)
      else if prev = CHR ''_'' \<and> \<not> is_digit c then None
      else map_option (Cons c) (copy_without_underscores c cs))"

definition string_to_number_with_underscores :: "string \<Rightarrow> ieee option" where
  "string_to_number_with_underscores s =
     (if CHR ''_'' \<notin> set s then float_from_string_inner s
      else case copy_without_underscores NUL s of
             None \<Rightarrow> None
           | Some dup \<Rightarrow> float_from_string_inner dup)"

text \<open>
  \<open>PyFloat_FromString\<close> on a \<open>str\<close>: the string is made ASCII (a space character beyond
  ASCII becomes a blank; the first other character beyond ASCII becomes \<open>?\<close> and ends the
  string; no character between 127 and 255 is a decimal digit), the blanks at both ends
  are dropped, and the rest is parsed.
\<close>

definition Py_ISSPACE :: "char \<Rightarrow> bool" where
  "Py_ISSPACE c = (let n = (of_char c :: nat) in 9 \<le> n \<and> n \<le> 13 \<or> n = 32)"

definition Py_UNICODE_ISSPACE :: "char \<Rightarrow> bool" where
  "Py_UNICODE_ISSPACE c =
     (let n = (of_char c :: nat)
      in 9 \<le> n \<and> n \<le> 13 \<or> 28 \<le> n \<and> n \<le> 32 \<or> n = 133 \<or> n = 160)"

fun transform_loop :: "string \<Rightarrow> string" where
  "transform_loop [] = []"
| "transform_loop (c # cs) =
     (if (of_char c :: nat) < 127 then c # transform_loop cs
      else if Py_UNICODE_ISSPACE c then CHR 0x20 # transform_loop cs
      else [CHR ''?''])"

definition TransformDecimalAndSpaceToASCII :: "string \<Rightarrow> string" where
  "TransformDecimalAndSpaceToASCII s =
     (if list_all (\<lambda>c. (of_char c :: nat) < 128) s then s else transform_loop s)"

definition PyFloat_FromString :: "string \<Rightarrow> ieee option" where
  "PyFloat_FromString v =
     (let s = dropWhile Py_ISSPACE (TransformDecimalAndSpaceToASCII v);
          s' = rev (dropWhile Py_ISSPACE (rev s))
      in string_to_number_with_underscores s')"

text \<open>
  numpy's \<open>FLOAT_setitem\<close> (through \<open>MyPyFloat_AsDouble\<close>). The \<open>ValueError\<close> of a string is
  modelled by the string it shows; a list where a number is expected raises
  \<open>ValueError("setting an array element with a sequence.")\<close>.
\<close>

datatype conversion_error = ValueError string | SequenceElement

definition FLOAT_setitem :: "cell \<Rightarrow> conversion_error + ieee" where
  "FLOAT_setitem op =
     (case op of
        PyNone \<Rightarrow> Inr NaN
      | Str s \<Rightarrow>
          (case PyFloat_FromString s of
             None \<Rightarrow> Inl (ValueError s)
           | Some x \<Rightarrow> Inr (double_to_float x))
      | PyList fs \<Rightarrow> Inl SequenceElement)"

text \<open>
  \<open>np.array(values, dtype=np.float32)\<close> on a list of strings and \<open>None\<close>: the elements are
  stored in order and the first error ends the conversion. With a list among the values
  numpy looks for a second dimension; that case is outside this model (\<open>None\<close>) and does
  not arise for a column read under a field name (\<open>named_column_scalar\<close> below).
\<close>

definition is_sequence :: "cell \<Rightarrow> bool" where
  "is_sequence v = (case v of PyList fs \<Rightarrow> True | _ \<Rightarrow> False)"

fun setitems :: "cell list \<Rightarrow> conversion_error + ieee list" where
  "setitems [] = Inr []"
| "setitems (v # vs) =
     (case FLOAT_setitem v of
        Inl e \<Rightarrow> Inl e
      | Inr x \<Rightarrow> map_sum id (Cons x) (setitems vs))"

definition np_array :: "cell list \<Rightarrow> (conversion_error + ieee list) option" where
  "np_array vs = (if list_ex is_sequence vs then None else Some (setitems vs))"

text \<open>
  \<open>np.array(columns[name], dtype=np.float32)\<close>: the read of \<open>columns[name]\<close> may store the
  name in the table, so the table is returned too.
\<close>

definition convert_column ::
  "table \<Rightarrow> string \<Rightarrow> (conversion_error + ieee list) option \<times> table" where
  "convert_column columns name =
     (case dd_getitem columns (Some name) of
        (vs, columns') \<Rightarrow> (np_array vs, columns'))"

section \<open>The notions of the specification\<close>

text \<open>
  The specification describes a line as split at the delimiter: \<open>split_fields d line\<close> is
  \<open>line.split(d)\<close>, and \<open>join\<close> is its inverse.
\<close>

fun split_from :: "char \<Rightarrow> string \<Rightarrow> string \<Rightarrow> string list" where
  "split_from d cur [] = [cur]"
| "split_from d cur (c # cs) =
     (if c = d then cur # split_from d [] cs else split_from d (cur @ [c]) cs)"

definition split_fields :: "char \<Rightarrow> string \<Rightarrow> string list" where
  "split_fields d line = split_from d [] line"

fun join :: "char \<Rightarrow> string list \<Rightarrow> string" where
  "join d [] = []"
| "join d [f] = f"
| "join d (f # g # fs) = f @ d # join d (g # fs)"

text \<open>
  Well-formed input as the specification has it: the header names are unique and every
  data line has as many delimiter-separated fields as the header.
\<close>

definition well_formed :: "char \<Rightarrow> string \<Rightarrow> string list \<Rightarrow> bool" where
  "well_formed d header data =
     (distinct (split_fields d header) \<and>
      list_all (\<lambda>line. length (split_fields d line) = length (split_fields d header)) data)"

text \<open>The value a read of \<open>columns[k]\<close> returns.\<close>

definition dd_lookup :: "table \<Rightarrow> key \<Rightarrow> cell list" where
  "dd_lookup columns k = fst (dd_getitem columns k)"

text \<open>
  The field names the reader takes from the text: the first record of the reader, or no
  names when the text has no line (or the first record cannot be read).
\<close>

definition header_names :: "char \<Rightarrow> string \<Rightarrow> string list" where
  "header_names d text_in =
     (case get_fieldnames d (DictReader (splitlines text_in)) of
        Inl e \<Rightarrow> []
      | Inr r \<Rightarrow> (case fieldnames r of None \<Rightarrow> [] | Some names \<Rightarrow> names))"

text \<open>
  The records the reader yields from a list of lines, blank ones skipped, up to the end
  of the input or the first error of the reader; and the records of a text after the one
  that gives the field names: these are the records the loop of the cell reads.
\<close>

function reader_records :: "char \<Rightarrow> string list \<Rightarrow> string list list" where
  "reader_records delimiter input =
     (case next_nonblank delimiter input of
        Inl e \<Rightarrow> []
      | Inr None \<Rightarrow> []
      | Inr (Some (row, rest)) \<Rightarrow> row # reader_records delimiter rest)"
  by pat_completeness auto
termination
  by (relation "measure (\<lambda>(delimiter, input). length input)")
     (auto dest: next_nonblank_rest)

declare reader_records.simps [simp del]

definition data_records :: "char \<Rightarrow> string \<Rightarrow> string list list" where
  "data_records d text_in =
     (case get_fieldnames d (DictReader (splitlines text_in)) of
        Inl e \<Rightarrow> []
      | Inr r \<Rightarrow> reader_records d (reader_input r))"

text \<open>The first string of a column that \<open>float\<close> refuses.\<close>

fun first_refused :: "cell list \<Rightarrow> string option" where
  "first_refused [] = None"
| "first_refused (Str s # vs) =
     (if PyFloat_FromString s = None then Some s else first_refused vs)"
| "first_refused (v # vs) = first_refused vs"

text \<open>
  Reading the table back by rows, as the round trip of the specification does:
  \<open>[columns[name][k] for name in names]\<close> (an IndexError is \<open>None\<close>), and
  \<open>d.join(cells)\<close>, which is a TypeError (\<open>None\<close>) unless every cell is a string.
\<close>

definition table_row :: "table \<Rightarrow> string list \<Rightarrow> nat \<Rightarrow> cell list option" where
  "table_row columns names k =
     (if list_all (\<lambda>name. k < length (dd_lookup columns (Some name))) names
      then Some (map (\<lambda>name. dd_lookup columns (Some name) ! k) names)
      else None)"

fun cell_strings :: "cell list \<Rightarrow> string list option" where
  "cell_strings [] = Some []"
| "cell_strings (Str s # cells) = map_option (Cons s) (cell_strings cells)"
| "cell_strings (c # cells) = None"

definition rejoin :: "char \<Rightarrow> cell list \<Rightarrow> string option" where
  "rejoin d cells = map_option (join d) (cell_strings cells)"

text \<open>A field that begins with the quote character of the dialect.\<close>

definition starts_with_quote :: "string \<Rightarrow> bool" where
  "starts_with_quote f = (case f of [] \<Rightarrow> False | c # cs \<Rightarrow> c = quotechar)"

text \<open>
  A line the reader splits exactly at the delimiters: it is not empty (an empty line is
  skipped as a blank row), it fits the field limit, it holds no NUL character, and none of
  its fields begins with the quote character (an opening quote starts a quoted field, which
  hides delimiters, drops the quotes and may run on into the next line).
\<close>

definition simple_line :: "char \<Rightarrow> string \<Rightarrow> bool" where
  "simple_line d line =
     (line \<noteq> [] \<and> length line \<le> field_limit \<and> list_all (\<lambda>c. c \<noteq> NUL) line \<and>
      list_all (\<lambda>f. \<not> starts_with_quote f) (split_fields d line))"

subsection \<open>Notions of the proofs\<close>

text \<open>The table after a list of rows.\<close>

definition append_rows :: "row_dict list \<Rightarrow> table \<Rightarrow> table" where
  "append_rows ds t = fold append_row ds t"

text \<open>The characters of a line followed by the end-of-line mark.\<close>

definition finish_line :: "char \<Rightarrow> reader_obj \<Rightarrow> string \<Rightarrow> py_error + reader_obj" where
  "finish_line d self line =
     (case process_chars d self line of
        Inl e \<Rightarrow> Inl e
      | Inr self1 \<Rightarrow> parse_process_char d self1 None)"

text \<open>A simple line that holds no newline character, as every line of \<open>splitlines\<close> does.\<close>

definition plain_line :: "char \<Rightarrow> string \<Rightarrow> bool" where
  "plain_line d line =
     (line \<noteq> [] \<and> length line \<le> field_limit \<and>
      list_all (\<lambda>c. c \<noteq> LF \<and> c \<noteq> CR \<and> c \<noteq> NUL) line \<and>
      list_all (\<lambda>f. \<not> starts_with_quote f) (split_fields d line))"

text \<open>
  Lines without a newline character, the number of characters of the input, and the
  field-limit error on more than \<open>n\<close> characters.
\<close>

definition no_newline :: "string \<Rightarrow> bool" where
  "no_newline line = list_all (\<lambda>c. c \<noteq> LF \<and> c \<noteq> CR) line"

definition total_length :: "string list \<Rightarrow> nat" where
  "total_length input = sum_list (map length input)"

definition limit_only :: "nat \<Rightarrow> py_error \<Rightarrow> bool" where
  "limit_only n e = (e = FieldLargerThanFieldLimit \<and> field_limit < n)"

text \<open>
  The errors that the input still to be read can cause, with \<open>k\<close> characters already in the
  field: the field limit, or a NUL character in one of the lines.
\<close>

definition known_error :: "nat \<Rightarrow> string list \<Rightarrow> py_error \<Rightarrow> bool" where
  "known_error k input e =
     (e = FieldLargerThanFieldLimit \<and> field_limit < k + total_length input \<or>
      e = LineContainsNul \<and> list_ex (\<lambda>line. NUL \<in> set line) input)"


section \<open>Properties of the table\<close>

subsection \<open>Keys and values after appending rows\<close>

lemma dd_lookup_eq: "dd_lookup t k = (case map_of t k of None \<Rightarrow> [] | Some vs \<Rightarrow> vs)"
  by (simp add: dd_lookup_def dd_getitem_def split: option.splits)

lemma append_value_keys:
  "map fst (append_value k v t) = (if k \<in> fst ` set t then map fst t else map fst t @ [k])"
  by (auto simp: append_value_def dd_getitem_def update_keys map_of_eq_None_iff split: option.splits
      dest: map_of_SomeD weak_map_of_SomeI)

lemma append_value_lookup:
  "dd_lookup (append_value k v t) k' = (if k' = k then dd_lookup t k @ [v] else dd_lookup t k')"
  by (auto simp: append_value_def dd_getitem_def dd_lookup_eq update_conv' split: option.splits)

lemma append_value_distinct:
  "distinct (map fst t) \<Longrightarrow> distinct (map fst (append_value k v t))"
  by (auto simp: append_value_keys)

lemma update_key_set: "fst ` set (AList.update k v al) = insert k (fst ` set al)"
  using dom_update [of k v al] by (simp add: dom_map_of_conv_image_fst)

lemma append_value_key_set: "fst ` set (append_value k v t) = insert k (fst ` set t)"
  by (simp add: append_value_def dd_getitem_def update_key_set split: option.splits)

lemma fold_append_value_keys:
  "fst ` set (fold (\<lambda>(k, v). append_value k v) d t) = fst ` set t \<union> fst ` set d"
  by (induction d arbitrary: t) (simp_all add: case_prod_beta append_value_key_set)

lemma fold_append_value_distinct:
  "distinct (map fst t) \<Longrightarrow> distinct (map fst (fold (\<lambda>(k, v). append_value k v) d t))"
  by (induction d arbitrary: t) (auto simp: append_value_distinct)

lemma fold_append_value_lookup:
  "distinct (map fst d) \<Longrightarrow>
   dd_lookup (fold (\<lambda>(k, v). append_value k v) d t) k =
     dd_lookup t k @ (case map_of d k of None \<Rightarrow> [] | Some v \<Rightarrow> [v])"
proof (induction d arbitrary: t)
  case Nil
  then show ?case by simp
next
  case (Cons p d)
  obtain k' v' where p: "p = (k', v')" by (cases p)
  from Cons.prems p have notin: "k' \<notin> fst ` set d" and dist: "distinct (map fst d)" by auto
  from notin have none: "map_of d k' = None" by (simp add: map_of_eq_None_iff)
  show ?case
    using Cons.IH [OF dist, of "append_value k' v' t"] p none
    by (simp add: append_value_lookup)
qed

lemma append_row_keys:
  "fst ` set (append_row d t) = fst ` set t \<union> fst ` set d"
  unfolding append_row_def by (rule fold_append_value_keys)

lemma append_row_distinct:
  "distinct (map fst t) \<Longrightarrow> distinct (map fst (append_row d t))"
  unfolding append_row_def by (rule fold_append_value_distinct)

lemma append_row_lookup:
  "distinct (map fst d) \<Longrightarrow>
   dd_lookup (append_row d t) k = dd_lookup t k @ (case map_of d k of None \<Rightarrow> [] | Some v \<Rightarrow> [v])"
  unfolding append_row_def by (rule fold_append_value_lookup)

lemma append_rows_keys:
  "fst ` set (append_rows ds t) = fst ` set t \<union> (\<Union>d \<in> set ds. fst ` set d)"
  unfolding append_rows_def
  by (induction ds arbitrary: t) (simp_all add: append_row_keys Un_assoc)

lemma append_rows_distinct:
  "distinct (map fst t) \<Longrightarrow> distinct (map fst (append_rows ds t))"
  unfolding append_rows_def
  by (induction ds arbitrary: t) (auto simp: append_row_distinct)

lemma append_rows_lookup:
  "(\<And>d. d \<in> set ds \<Longrightarrow> distinct (map fst d)) \<Longrightarrow>
   dd_lookup (append_rows ds t) k =
     dd_lookup t k @ concat (map (\<lambda>d. case map_of d k of None \<Rightarrow> [] | Some v \<Rightarrow> [v]) ds)"
  unfolding append_rows_def
  by (induction ds arbitrary: t) (auto simp: append_row_lookup)

text \<open>The keys of a row dictionary: every field name, and \<open>None\<close> for a long row.\<close>

lemma fold_update_keys:
  "fst ` set (fold (\<lambda>(k, v). AList.update (f k) (g v)) kvs d) = fst ` set d \<union> f ` fst ` set kvs"
  by (induction kvs arbitrary: d) (simp_all add: case_prod_beta update_key_set)

lemma fold_update_distinct:
  "distinct (map fst d) \<Longrightarrow> distinct (map fst (fold (\<lambda>(k, v). AList.update (f k) (g v)) kvs d))"
  by (induction kvs arbitrary: d) (auto simp: distinct_update)

lemma fold_update_const_keys:
  "fst ` set (fold (\<lambda>k. AList.update (f k) c) ks d) = fst ` set d \<union> f ` set ks"
  by (induction ks arbitrary: d) (simp_all add: update_key_set)

lemma fold_update_const_distinct:
  "distinct (map fst d) \<Longrightarrow> distinct (map fst (fold (\<lambda>k. AList.update (f k) c) ks d))"
  by (induction ks arbitrary: d) (auto simp: distinct_update)

lemma make_row_dict_distinct: "distinct (map fst (make_row_dict names row))"
  by (simp add: make_row_dict_def Let_def fold_update_distinct fold_update_const_distinct distinct_update)

lemma set_zip_fst_take: "fst ` set (zip xs ys) = set (take (length ys) xs)"
proof -
  have "fst ` set (zip xs ys) = set (map fst (zip xs ys))" by simp
  also have "map fst (zip xs ys) = take (length ys) xs"
    by (simp add: map_fst_zip_take min_def)
  finally show ?thesis .
qed

lemma make_row_dict_keys:
  "fst ` set (make_row_dict names row) =
     Some ` set names \<union> (if length names < length row then {None} else {})"
proof -
  let ?d = "fold (\<lambda>(k, v). AList.update (Some k) (Str v)) (zip names row) []"
  have d: "fst ` set ?d = Some ` set (take (length row) names)"
    by (simp add: fold_update_keys set_zip_fst_take)
  have names: "set names = set (take (length row) names) \<union> set (drop (length row) names)"
    by (metis append_take_drop_id set_append)
  consider (long) "length names < length row" | (short) "length row < length names"
    | (same) "length row = length names" by linarith
  then show ?thesis
  proof cases
    case long
    then show ?thesis
      by (simp add: make_row_dict_def Let_def update_key_set d)
  next
    case short
    then have "fst ` set (make_row_dict names row) =
        Some ` set (take (length row) names) \<union> Some ` set (drop (length row) names)"
      by (simp add: make_row_dict_def Let_def fold_update_const_keys d)
    also have "\<dots> = Some ` set names"
      using names by (metis image_Un)
    finally show ?thesis using short by simp
  next
    case same
    then show ?thesis
      by (simp add: make_row_dict_def Let_def d)
  qed
qed

subsection \<open>Lines without quoting\<close>

lemma finish_line_Nil: "finish_line d r [] = parse_process_char d r None"
  by (simp add: finish_line_def)

lemma finish_line_Cons:
  "c \<noteq> NUL \<Longrightarrow> finish_line d r (c # cs) =
     (case parse_process_char d r (Some c) of Inl e \<Rightarrow> Inl e | Inr r' \<Rightarrow> finish_line d r' cs)"
  by (simp add: finish_line_def split: sum.splits)

lemma split_from_prefix: "\<exists>f fs. split_from d cur cs = (cur @ f) # fs"
  by (induction cs arbitrary: cur) (auto, metis append.assoc)

lemma split_from_ne: "split_from d cur cs \<noteq> []"
  using split_from_prefix [of d cur cs] by auto

lemma join_split_from: "join d (split_from d cur cs) = cur @ cs"
proof (induction cs arbitrary: cur)
  case Nil
  show ?case by simp
next
  case (Cons c cs)
  show ?case
  proof (cases "c = d")
    case True
    obtain f fs where "split_from d [] cs = f # fs"
      using split_from_prefix [of d "[]" cs] by auto
    with Cons [of "[]"] True show ?thesis by simp
  next
    case False
    with Cons [of "cur @ [c]"] show ?thesis by simp
  qed
qed

lemma finish_line_plain:
  assumes "d \<noteq> quotechar"
    and "\<forall>c \<in> set cs. c \<noteq> LF \<and> c \<noteq> CR \<and> c \<noteq> NUL"
    and "\<forall>f \<in> set (split_from d (field_buf r) cs). \<not> starts_with_quote f"
    and "length (field_buf r) + length cs \<le> field_limit"
    and "state r = IN_FIELD \<or> state r = START_FIELD \<and> field_buf r = []"
  shows "finish_line d r cs =
    Inr \<lparr>state = START_RECORD, row_fields = row_fields r @ split_from d (field_buf r) cs, field_buf = []\<rparr>"
  using assms
proof (induction cs arbitrary: r)
  case Nil
  then show ?case
    by (auto simp: finish_line_Nil parse_process_char_def start_field_def ends_line_def
        after_line_def set_state_def parse_save_field_def)
next
  case (Cons c cs)
  from Cons.prems(2) have c: "c \<noteq> LF" "c \<noteq> CR" and nul: "c \<noteq> NUL"
    and cs: "\<forall>c \<in> set cs. c \<noteq> LF \<and> c \<noteq> CR \<and> c \<noteq> NUL"
    by auto
  from Cons.prems(4) have len: "length (field_buf r) < field_limit" by simp
  show ?case
  proof (cases "c = d")
    case True
    let ?r = "set_state START_FIELD (parse_save_field r)"
    from True Cons.prems(1,5) c have step: "parse_process_char d r (Some c) = Inr ?r"
      by (auto simp: parse_process_char_def start_field_def ends_line_def set_state_def
          parse_save_field_def)
    have "finish_line d ?r cs = Inr \<lparr>state = START_RECORD,
        row_fields = row_fields ?r @ split_from d (field_buf ?r) cs, field_buf = []\<rparr>"
      using Cons.prems True cs
      by (intro Cons.IH) (auto simp: set_state_def parse_save_field_def)
    with step True nul show ?thesis
      by (simp add: finish_line_Cons set_state_def parse_save_field_def)
  next
    case False
    let ?r = "r\<lparr>state := IN_FIELD, field_buf := field_buf r @ [c]\<rparr>"
    obtain f fs where "split_from d ((field_buf r) @ [c]) cs = ((field_buf r) @ [c] @ f) # fs"
      using split_from_prefix [of d "field_buf r @ [c]" cs] by auto
    with Cons.prems(3) False have "\<not> starts_with_quote (field_buf r @ [c] @ f)"
      by simp
    with Cons.prems(5) have q: "state r = START_FIELD \<Longrightarrow> c \<noteq> quotechar"
      by (auto simp: starts_with_quote_def)
    from False Cons.prems(5) c len q have step: "parse_process_char d r (Some c) = Inr ?r"
      by (auto simp: parse_process_char_def start_field_def ends_line_def set_state_def
          parse_add_char_def)
    have "finish_line d ?r cs = Inr \<lparr>state = START_RECORD,
        row_fields = row_fields ?r @ split_from d (field_buf ?r) cs, field_buf = []\<rparr>"
      using Cons.prems False cs
      by (intro Cons.IH) auto
    with step False show ?thesis
      by (simp add: finish_line_Cons [OF nul])
  qed
qed

lemma iternext_loop_Cons:
  "iternext_loop d r (line # input) =
     (case finish_line d r line of
        Inl e \<Rightarrow> Inl e
      | Inr r2 \<Rightarrow>
          if state r2 \<noteq> START_RECORD then iternext_loop d r2 input
          else Inr (Some (row_fields r2, input)))"
  by (simp add: finish_line_def split: sum.splits)

lemma start_record_step:
  "c \<noteq> LF \<Longrightarrow> c \<noteq> CR \<Longrightarrow>
   parse_process_char d parse_reset (Some c) =
     parse_process_char d (set_state START_FIELD parse_reset) (Some c)"
  by (simp add: parse_process_char_def parse_reset_def set_state_def)

lemma Reader_iternext_plain:
  assumes "d \<noteq> quotechar" and "plain_line d line"
  shows "Reader_iternext d (line # input) = Inr (Some (split_fields d line, input))"
proof -
  from assms(2) obtain c cs where line: "line = c # cs"
    by (cases line) (auto simp: plain_line_def)
  let ?r = "set_state START_FIELD parse_reset"
  from assms(2) line have c: "c \<noteq> LF" "c \<noteq> CR" and nul: "c \<noteq> NUL"
    by (auto simp: plain_line_def)
  have "finish_line d parse_reset line = finish_line d ?r line"
    using start_record_step [OF c] by (simp add: line finish_line_Cons [OF nul])
  also have "\<dots> = Inr \<lparr>state = START_RECORD,
      row_fields = row_fields ?r @ split_from d (field_buf ?r) line, field_buf = []\<rparr>"
    using assms
    by (intro finish_line_plain)
       (auto simp: plain_line_def set_state_def parse_reset_def split_fields_def list_all_iff)
  finally have "finish_line d parse_reset line =
      Inr \<lparr>state = START_RECORD, row_fields = split_fields d line, field_buf = []\<rparr>"
    by (simp add: set_state_def parse_reset_def split_fields_def)
  then show ?thesis
    by (simp add: Reader_iternext_def iternext_loop_Cons del: iternext_loop.simps)
qed

lemma Reader_iternext_blank: "Reader_iternext d ([] # input) = Inr (Some ([], input))"
  by (simp add: Reader_iternext_def parse_reset_def parse_process_char_def)

lemma split_fields_ne: "split_fields d line \<noteq> []"
  by (simp add: split_fields_def split_from_ne)

lemma next_nonblank_plain:
  "d \<noteq> quotechar \<Longrightarrow> plain_line d line \<Longrightarrow>
   next_nonblank d (line # input) = Inr (Some (split_fields d line, input))"
  by (simp add: next_nonblank.simps [of d "line # input"] Reader_iternext_plain split_fields_ne)

lemma next_nonblank_blank: "next_nonblank d ([] # input) = next_nonblank d input"
  by (simp add: next_nonblank.simps [of d "[] # input"] Reader_iternext_blank)

lemma next_nonblank_Nil: "next_nonblank d [] = Inr None"
  by (simp add: next_nonblank.simps [of d "[]"] Reader_iternext_def parse_reset_def)

text \<open>The loop over data lines that are blank or plain.\<close>

lemma for_loop_plain:
  assumes "d \<noteq> quotechar"
    and "\<forall>line \<in> set input. line = [] \<or> plain_line d line"
  shows "for_loop d \<lparr>reader_input = input, fieldnames = Some names\<rparr> t =
    (append_rows (map (\<lambda>line. make_row_dict names (split_fields d line))
       (filter (\<lambda>line. line \<noteq> []) input)) t, None)"
  using assms(2)
proof (induction input arbitrary: t)
  case Nil
  show ?case
    by (simp add: for_loop.simps [of d "\<lparr>reader_input = [], fieldnames = Some names\<rparr>"]
        DictReader_next_def get_fieldnames_def next_nonblank_Nil append_rows_def)
next
  case (Cons line input)
  show ?case
  proof (cases "line = []")
    case True
    have "DictReader_next d \<lparr>reader_input = line # input, fieldnames = Some names\<rparr> =
        DictReader_next d \<lparr>reader_input = input, fieldnames = Some names\<rparr>"
      using True
      by (simp add: DictReader_next_def get_fieldnames_def next_nonblank_blank
          split: sum.splits option.splits)
    then have "for_loop d \<lparr>reader_input = line # input, fieldnames = Some names\<rparr> t =
        for_loop d \<lparr>reader_input = input, fieldnames = Some names\<rparr> t"
      by (simp add: for_loop.simps [of d "\<lparr>reader_input = line # input, fieldnames = Some names\<rparr>"]
          for_loop.simps [of d "\<lparr>reader_input = input, fieldnames = Some names\<rparr>"])
    with Cons True show ?thesis by simp
  next
    case False
    with Cons.prems have plain: "plain_line d line" by simp
    have "DictReader_next d \<lparr>reader_input = line # input, fieldnames = Some names\<rparr> =
        Inr (Some (make_row_dict names (split_fields d line),
          \<lparr>reader_input = input, fieldnames = Some names\<rparr>))"
      by (simp add: DictReader_next_def get_fieldnames_def
          next_nonblank_plain [OF assms(1) plain])
    then have "for_loop d \<lparr>reader_input = line # input, fieldnames = Some names\<rparr> t =
        for_loop d \<lparr>reader_input = input, fieldnames = Some names\<rparr>
          (append_row (make_row_dict names (split_fields d line)) t)"
      by (simp add: for_loop.simps [of d "\<lparr>reader_input = line # input, fieldnames = Some names\<rparr>"])
    with Cons False show ?thesis by (simp add: append_rows_def)
  qed
qed

text \<open>The first record the reader yields becomes the field names.\<close>

lemma DictReader_next_header:
  assumes "Reader_iternext d input = Inr (Some (names, rest))"
  shows "DictReader_next d (DictReader input) =
    DictReader_next d \<lparr>reader_input = rest, fieldnames = Some names\<rparr>"
  using assms by (simp add: DictReader_next_def get_fieldnames_def DictReader_def)

lemma for_loop_header:
  assumes "Reader_iternext d input = Inr (Some (names, rest))"
  shows "for_loop d (DictReader input) t =
    for_loop d \<lparr>reader_input = rest, fieldnames = Some names\<rparr> t"
  using DictReader_next_header [OF assms]
  by (simp add: for_loop.simps [of d "DictReader input"]
      for_loop.simps [of d "\<lparr>reader_input = rest, fieldnames = Some names\<rparr>"])

lemma aggregate_plain:
  assumes "splitlines text_in = header # data"
    and "d \<noteq> quotechar"
    and "plain_line d header"
    and "\<forall>line \<in> set data. line = [] \<or> plain_line d line"
  shows "aggregate d text_in =
    (append_rows (map (\<lambda>line. make_row_dict (split_fields d header) (split_fields d line))
       (filter (\<lambda>line. line \<noteq> []) data)) [], None)"
  using assms
  by (simp add: aggregate_def for_loop_header [OF Reader_iternext_plain] for_loop_plain)

subsection \<open>The errors the loop can end with\<close>

text \<open>
  The lines that \<open>splitlines\<close> returns hold no line boundary, so the reader never meets a
  newline inside a line. The errors left are a field that outgrows the limit, which needs
  more characters than the limit, and a NUL character in the text.
\<close>

lemma parse_process_char_Some_ok:
  assumes "state r \<noteq> EAT_CRNL" and "c \<noteq> LF" and "c \<noteq> CR"
  shows "case parse_process_char d r (Some c) of
      Inl e \<Rightarrow> limit_only (Suc (length (field_buf r))) e
    | Inr r' \<Rightarrow> state r' \<noteq> EAT_CRNL \<and> length (field_buf r') \<le> Suc (length (field_buf r))"
  using assms
  by (cases "state r")
     (auto simp: parse_process_char_def start_field_def parse_add_char_def parse_save_field_def
       set_state_def ends_line_def after_line_def limit_only_def)

lemma parse_process_char_None_ok:
  "\<exists>r'. parse_process_char d r None = Inr r' \<and> state r' \<noteq> EAT_CRNL \<and>
     length (field_buf r') \<le> length (field_buf r)"
  by (cases "state r")
     (auto simp: parse_process_char_def start_field_def parse_save_field_def
       set_state_def ends_line_def after_line_def)

lemma known_error_mono: "known_error k input e \<Longrightarrow> k \<le> k' \<Longrightarrow> known_error k' input e"
  by (auto simp: known_error_def)

lemma known_error_drop: "known_error k (drop n input) e \<Longrightarrow> known_error k input e"
proof -
  have "total_length input = total_length (take n input) + total_length (drop n input)"
    unfolding total_length_def by (metis append_take_drop_id map_append sum_list_append)
  then have "total_length (drop n input) \<le> total_length input" by simp
  moreover assume "known_error k (drop n input) e"
  ultimately show ?thesis
    by (auto simp: known_error_def list_ex_iff dest: in_set_dropD)
qed

lemma known_error_first: "known_error k [line] e \<Longrightarrow> known_error k (line # input) e"
  by (auto simp: known_error_def total_length_def)

lemma known_error_rest:
  "known_error k' input e \<Longrightarrow> k' \<le> k + length line \<Longrightarrow> known_error k (line # input) e"
  by (auto simp: known_error_def total_length_def)

lemma known_error_char: "known_error (Suc k) [cs] e \<Longrightarrow> known_error k [c # cs] e"
  by (auto simp: known_error_def total_length_def)

lemma known_error_limit: "limit_only (Suc k) e \<Longrightarrow> known_error k [c # cs] e"
  by (auto simp: known_error_def limit_only_def total_length_def)

lemma known_error_nul: "known_error k [NUL # cs] LineContainsNul"
  by (simp add: known_error_def)

lemma process_chars_ok:
  assumes "state r \<noteq> EAT_CRNL" and "no_newline cs"
  shows "case process_chars d r cs of
      Inl e \<Rightarrow> known_error (length (field_buf r)) [cs] e
    | Inr r' \<Rightarrow> state r' \<noteq> EAT_CRNL \<and> length (field_buf r') \<le> length (field_buf r) + length cs"
  using assms
proof (induction cs arbitrary: r)
  case Nil
  then show ?case by simp
next
  case (Cons c cs)
  from Cons.prems(2) have c: "c \<noteq> LF" "c \<noteq> CR" and cs: "no_newline cs"
    by (auto simp: no_newline_def)
  show ?case
  proof (cases "c = NUL")
    case True
    then show ?thesis by (simp add: known_error_nul)
  next
    case False
    show ?thesis
    proof (cases "parse_process_char d r (Some c)")
      case (Inl e)
      with parse_process_char_Some_ok [OF Cons.prems(1) c, of d] False show ?thesis
        by (simp add: known_error_limit)
    next
      case (Inr r1)
      with parse_process_char_Some_ok [OF Cons.prems(1) c, of d]
      have r1: "state r1 \<noteq> EAT_CRNL" "length (field_buf r1) \<le> Suc (length (field_buf r))"
        by auto
      from Cons.IH [OF r1(1) cs] r1(2) Inr False show ?thesis
        by (auto split: sum.splits intro: known_error_char known_error_mono)
    qed
  qed
qed

lemma iternext_loop_ok:
  assumes "state r \<noteq> EAT_CRNL" and "list_all no_newline input"
  shows "case iternext_loop d r input of
      Inl e \<Rightarrow> known_error (length (field_buf r)) input e
    | Inr None \<Rightarrow> True
    | Inr (Some (row, rest)) \<Rightarrow> (\<exists>n. rest = drop n input)"
  using assms
proof (induction input arbitrary: r)
  case Nil
  then show ?case by simp
next
  case (Cons line input)
  from Cons.prems(2) have line: "no_newline line" and input: "list_all no_newline input"
    by auto
  show ?case
  proof (cases "process_chars d r line")
    case (Inl e)
    with process_chars_ok [OF Cons.prems(1) line, of d] show ?thesis
      by (simp add: known_error_first)
  next
    case (Inr r1)
    with process_chars_ok [OF Cons.prems(1) line, of d]
    have r1: "state r1 \<noteq> EAT_CRNL" "length (field_buf r1) \<le> length (field_buf r) + length line"
      by auto
    from parse_process_char_None_ok [of d r1] obtain r2 where
      r2: "parse_process_char d r1 None = Inr r2" "state r2 \<noteq> EAT_CRNL"
        "length (field_buf r2) \<le> length (field_buf r1)"
      by auto
    show ?thesis
    proof (cases "state r2 = START_RECORD")
      case True
      with Inr r2 show ?thesis
        by (auto intro: exI [of _ 1])
    next
      case False
      have eq: "iternext_loop d r (line # input) = iternext_loop d r2 input"
        using Inr r2 False by simp
      have len: "length (field_buf r2) \<le> length (field_buf r) + length line"
        using r1 r2 by simp
      from Cons.IH [OF r2(2) input] show ?thesis
        unfolding eq
        by (auto split: sum.splits option.splits
            intro: known_error_rest [OF _ len] exI [of _ "Suc n" for n])
    qed
  qed
qed


lemma no_newline_drop: "list_all no_newline input \<Longrightarrow> list_all no_newline (drop n input)"
  by (auto simp: list_all_iff dest: in_set_dropD)

lemma Reader_iternext_ok:
  assumes "list_all no_newline input"
  shows "case Reader_iternext d input of
      Inl e \<Rightarrow> known_error 0 input e
    | Inr None \<Rightarrow> True
    | Inr (Some (row, rest)) \<Rightarrow> (\<exists>n. rest = drop n input)"
  using iternext_loop_ok [of parse_reset input d] assms
  by (auto simp: Reader_iternext_def parse_reset_def split: sum.splits option.splits)

lemma next_nonblank_ok:
  assumes "list_all no_newline input"
  shows "case next_nonblank d input of
      Inl e \<Rightarrow> known_error 0 input e
    | Inr None \<Rightarrow> True
    | Inr (Some (row, rest)) \<Rightarrow> (\<exists>n. rest = drop n input)"
  using assms
proof (induction d input rule: next_nonblank.induct)
  case (1 d input)
  note ok = Reader_iternext_ok [OF "1.prems", of d]
  show ?case
  proof (cases "Reader_iternext d input")
    case (Inl e)
    with ok show ?thesis
      by (simp add: next_nonblank.simps [of d input])
  next
    case (Inr res)
    show ?thesis
    proof (cases res)
      case None
      with Inr show ?thesis
        by (simp add: next_nonblank.simps [of d input])
    next
      case (Some p)
      obtain row rest where p: "p = (row, rest)" by (cases p)
      from ok Inr Some p obtain n where n: "rest = drop n input" by auto
      show ?thesis
      proof (cases "row = []")
        case True
        have eq: "next_nonblank d input = next_nonblank d rest"
          using Inr Some p True by (simp add: next_nonblank.simps [of d input])
        have "list_all no_newline rest"
          using n "1.prems" by (simp add: no_newline_drop)
        from "1.IH" [OF Inr Some p [symmetric] True this]
        show ?thesis
          unfolding eq n
          by (auto split: sum.splits option.splits intro: known_error_drop)
      next
        case False
        with Inr Some p n show ?thesis
          by (auto simp: next_nonblank.simps [of d input])
      qed
    qed
  qed
qed

lemma get_fieldnames_ok:
  assumes "list_all no_newline (reader_input r)"
  shows "case get_fieldnames d r of
      Inl e \<Rightarrow> known_error 0 (reader_input r) e
    | Inr r' \<Rightarrow> (\<exists>n. reader_input r' = drop n (reader_input r))"
  using Reader_iternext_ok [OF assms, of d]
  by (auto simp: get_fieldnames_def split: option.splits sum.splits intro: exI [of _ 0])

lemma DictReader_next_ok:
  assumes "list_all no_newline (reader_input r)"
  shows "case DictReader_next d r of
      Inl e \<Rightarrow> known_error 0 (reader_input r) e
    | Inr None \<Rightarrow> True
    | Inr (Some (row, r')) \<Rightarrow> (\<exists>n. reader_input r' = drop n (reader_input r))"
proof (cases "get_fieldnames d r")
  case (Inl e)
  with get_fieldnames_ok [OF assms, of d] show ?thesis
    by (simp add: DictReader_next_def)
next
  case (Inr r1)
  with get_fieldnames_ok [OF assms, of d] obtain n where
    n: "reader_input r1 = drop n (reader_input r)" by auto
  then have sound: "list_all no_newline (reader_input r1)"
    using assms by (simp add: no_newline_drop)
  have unset: "next_nonblank d (reader_input r1) = Inr None" if "fieldnames r1 = None"
    using Inr that by (rule get_fieldnames_unset)
  from next_nonblank_ok [OF sound, of d]
  have "case next_nonblank d (reader_input r1) of
      Inl e \<Rightarrow> known_error 0 (reader_input r) e
    | Inr None \<Rightarrow> True
    | Inr (Some (row, rest)) \<Rightarrow> (\<exists>m. rest = drop m (reader_input r))"
    unfolding n
    by (auto split: sum.splits option.splits
        intro: known_error_drop exI [of _ "m + n" for m])
  with Inr unset show ?thesis
    by (auto simp: DictReader_next_def split: sum.splits option.splits)
qed

lemma for_loop_ok:
  assumes "list_all no_newline (reader_input r)"
  shows "case snd (for_loop d r t) of
      None \<Rightarrow> True
    | Some e \<Rightarrow> known_error 0 (reader_input r) e"
  using assms
proof (induction d r t rule: for_loop.induct)
  case (1 d r t)
  note ok = DictReader_next_ok [OF "1.prems", of d]
  show ?case
  proof (cases "DictReader_next d r")
    case (Inl e)
    with ok show ?thesis
      by (simp add: for_loop.simps [of d r t])
  next
    case (Inr res)
    show ?thesis
    proof (cases res)
      case None
      with Inr show ?thesis
        by (simp add: for_loop.simps [of d r t])
    next
      case (Some p)
      obtain row r' where p: "p = (row, r')" by (cases p)
      from ok Inr Some p obtain n where n: "reader_input r' = drop n (reader_input r)"
        by auto
      have eq: "for_loop d r t = for_loop d r' (append_row row t)"
        using Inr Some p by (simp add: for_loop.simps [of d r t])
      have "list_all no_newline (reader_input r')"
        using n "1.prems" by (simp add: no_newline_drop)
      from "1.IH" [OF Inr Some p [symmetric] this]
      show ?thesis
        unfolding eq n
        by (auto split: option.splits intro: known_error_drop)
    qed
  qed
qed

text \<open>The lines of \<open>splitlines\<close>.\<close>

lemma linebreak_newline: "\<not> is_linebreak c \<Longrightarrow> c \<noteq> LF \<and> c \<noteq> CR"
  by (simp add: is_linebreak_def)

lemma splitlines_from_sound:
  "list_all (\<lambda>c. \<not> is_linebreak c) cur \<Longrightarrow>
   list_all (list_all (\<lambda>c. \<not> is_linebreak c)) (splitlines_from cur s)"
  by (induction cur s rule: splitlines_from.induct) (auto simp: is_linebreak_def)

lemma splitlines_from_length:
  "total_length (splitlines_from cur s) \<le> length cur + length s"
  by (induction cur s rule: splitlines_from.induct) (auto simp: total_length_def)

lemma splitlines_from_chars:
  "line \<in> set (splitlines_from cur s) \<Longrightarrow> set line \<subseteq> set cur \<union> set s"
  by (induction cur s arbitrary: line rule: splitlines_from.induct)
     (auto split: if_splits)

lemma splitlines_no_newline: "list_all no_newline (splitlines text_in)"
  using splitlines_from_sound [of "[]" "text_in"]
  by (auto simp: splitlines_def no_newline_def list_all_iff dest!: linebreak_newline)

lemma splitlines_length: "total_length (splitlines text_in) \<le> length text_in"
  using splitlines_from_length [of "[]" "text_in"] by (simp add: splitlines_def)

lemma splitlines_chars: "line \<in> set (splitlines text_in) \<Longrightarrow> set line \<subseteq> set text_in"
  using splitlines_from_chars [of line "[]" text_in] by (simp add: splitlines_def)

lemma known_error_text:
  assumes "known_error 0 (splitlines text_in) e"
  shows "e = FieldLargerThanFieldLimit \<and> field_limit < length text_in \<or>
    e = LineContainsNul \<and> NUL \<in> set text_in"
  using assms splitlines_length [of text_in]
  by (auto simp: known_error_def list_ex_iff dest: splitlines_chars)

lemma aggregate_ok:
  "snd (aggregate d text_in) = None \<or>
   snd (aggregate d text_in) = Some FieldLargerThanFieldLimit \<and> field_limit < length text_in \<or>
   snd (aggregate d text_in) = Some LineContainsNul \<and> NUL \<in> set text_in"
proof (cases "snd (aggregate d text_in)")
  case None
  then show ?thesis by simp
next
  case (Some e)
  with for_loop_ok [of "DictReader (splitlines text_in)" d "[]"]
  have "known_error 0 (splitlines text_in) e"
    by (simp add: aggregate_def DictReader_def splitlines_no_newline)
  from known_error_text [OF this] Some show ?thesis by simp
qed

subsection \<open>The rows behind the table\<close>

lemma DictReader_next_row:
  assumes "DictReader_next d r = Inr (Some (row, r'))" and "fieldnames r = Some names"
  shows "(\<exists>fs. row = make_row_dict names fs) \<and> fieldnames r' = Some names"
  using assms
  by (auto simp: DictReader_next_def get_fieldnames_def split: sum.splits option.splits)

lemma for_loop_rows:
  assumes "fieldnames r = Some names"
  shows "\<exists>rows. fst (for_loop d r t) = append_rows (map (make_row_dict names) rows) t"
  using assms
proof (induction d r t rule: for_loop.induct)
  case (1 d r t)
  show ?case
  proof (cases "DictReader_next d r")
    case (Inl e)
    then have "fst (for_loop d r t) = append_rows (map (make_row_dict names) []) t"
      by (simp add: for_loop.simps [of d r t] append_rows_def)
    then show ?thesis by blast
  next
    case (Inr res)
    show ?thesis
    proof (cases res)
      case None
      with Inr have "fst (for_loop d r t) = append_rows (map (make_row_dict names) []) t"
        by (simp add: for_loop.simps [of d r t] append_rows_def)
      then show ?thesis by blast
    next
      case (Some p)
      obtain row r' where p: "p = (row, r')" by (cases p)
      from Inr Some p have next_row: "DictReader_next d r = Inr (Some (row, r'))" by simp
      from DictReader_next_row [OF next_row "1.prems"] obtain fs where
        fs: "row = make_row_dict names fs" and r': "fieldnames r' = Some names"
        by auto
      from "1.IH" [OF Inr Some p [symmetric] r'] obtain rows where
        rows: "fst (for_loop d r' (append_row row t)) =
          append_rows (map (make_row_dict names) rows) (append_row row t)"
        by auto
      have "fst (for_loop d r t) = append_rows (map (make_row_dict names) (fs # rows)) t"
        using next_row rows fs by (simp add: for_loop.simps [of d r t] append_rows_def)
      then show ?thesis by blast
    qed
  qed
qed

lemma aggregate_rows:
  "\<exists>rows. fst (aggregate d text_in) =
     append_rows (map (make_row_dict (header_names d text_in)) rows) []"
proof (cases "get_fieldnames d (DictReader (splitlines text_in))")
  case (Inl e)
  then have "fst (aggregate d text_in) = append_rows (map (make_row_dict (header_names d text_in)) []) []"
    by (simp add: aggregate_def for_loop.simps [of d "DictReader (splitlines text_in)"]
        DictReader_next_def append_rows_def)
  then show ?thesis by blast
next
  case (Inr r1)
  show ?thesis
  proof (cases "fieldnames r1")
    case None
    with Inr have "DictReader_next d (DictReader (splitlines text_in)) = Inr None \<or>
        (\<exists>e. DictReader_next d (DictReader (splitlines text_in)) = Inl e)"
      by (auto simp: DictReader_next_def split: sum.splits option.splits)
    then have "fst (aggregate d text_in) =
        append_rows (map (make_row_dict (header_names d text_in)) []) []"
      by (auto simp: aggregate_def for_loop.simps [of d "DictReader (splitlines text_in)"]
          append_rows_def)
    then show ?thesis by blast
  next
    case (Some names)
    have same: "get_fieldnames d r1 = Inr r1"
      using Some by (simp add: get_fieldnames_def)
    have "DictReader_next d (DictReader (splitlines text_in)) = DictReader_next d r1"
      using Inr same by (simp add: DictReader_next_def)
    then have "for_loop d (DictReader (splitlines text_in)) [] = for_loop d r1 []"
      by (simp add: for_loop.simps [of d "DictReader (splitlines text_in)"]
          for_loop.simps [of d r1])
    moreover have "header_names d text_in = names"
      using Inr Some by (simp add: header_names_def)
    ultimately show ?thesis
      using for_loop_rows [OF Some, of d "[]"] by (simp add: aggregate_def)
  qed
qed

text \<open>The values of a row dictionary under the field names and under \<open>None\<close>.\<close>

lemma map_of_fold_update_other:
  "k \<notin> f ` set ks \<Longrightarrow> map_of (fold (\<lambda>k. AList.update (f k) c) ks al) k = map_of al k"
  by (induction ks arbitrary: al) (auto simp: update_conv')

lemma map_of_fold_update_const:
  "k \<in> f ` set ks \<Longrightarrow> map_of (fold (\<lambda>k. AList.update (f k) c) ks al) k = Some c"
proof (induction ks arbitrary: al)
  case Nil
  then show ?case by simp
next
  case (Cons x ks)
  show ?case
  proof (cases "k \<in> f ` set ks")
    case True
    then show ?thesis using Cons.IH by simp
  next
    case False
    with Cons.prems have "k = f x" by auto
    with False show ?thesis
      by (simp add: map_of_fold_update_other update_conv')
  qed
qed

lemma make_row_dict_short:
  assumes "length row \<le> i" and "i < length names"
  shows "map_of (make_row_dict names row) (Some (names ! i)) = Some PyNone"
proof -
  have "drop (length row) names ! (i - length row) = names ! i"
    using assms by simp
  moreover have "i - length row < length (drop (length row) names)"
    using assms by simp
  ultimately have "names ! i \<in> set (drop (length row) names)"
    by (metis nth_mem)
  then have "Some (names ! i) \<in> Some ` set (drop (length row) names)" by simp
  with assms show ?thesis
    by (simp add: make_row_dict_def Let_def map_of_fold_update_const)
qed

lemma make_row_dict_long:
  assumes "length names < length row"
  shows "map_of (make_row_dict names row) None = Some (PyList (drop (length names) row))"
  using assms by (simp add: make_row_dict_def Let_def update_conv')

lemma make_row_dict_not_long:
  assumes "length row \<le> length names"
  shows "map_of (make_row_dict names row) None = None"
proof -
  have "None \<notin> fst ` set (make_row_dict names row)"
    using assms by (simp add: make_row_dict_keys)
  then show ?thesis by (simp add: map_of_eq_None_iff)
qed

lemma make_row_dict_has_name:
  assumes "n \<in> set names"
  shows "\<exists>v. map_of (make_row_dict names row) (Some n) = Some v"
proof -
  have "Some n \<in> fst ` set (make_row_dict names row)"
    using assms by (simp add: make_row_dict_keys)
  then have "map_of (make_row_dict names row) (Some n) \<noteq> None"
    by (simp add: map_of_eq_None_iff)
  then show ?thesis by blast
qed

lemma make_row_dict_other:
  assumes "n \<notin> set names"
  shows "map_of (make_row_dict names row) (Some n) = None"
proof -
  have "Some n \<notin> fst ` set (make_row_dict names row)"
    using assms by (auto simp: make_row_dict_keys)
  then show ?thesis by (simp add: map_of_eq_None_iff)
qed

subsection \<open>Columns of the table\<close>

lemma dd_lookup_Nil: "dd_lookup [] k = []"
  by (simp add: dd_lookup_eq)

lemma append_rows_lookup_all:
  assumes "\<forall>d \<in> set ds. distinct (map fst d)"
    and "\<forall>d \<in> set ds. map_of d k \<noteq> None"
  shows "dd_lookup (append_rows ds []) k = map (\<lambda>d. the (map_of d k)) ds"
proof -
  have "concat (map (\<lambda>d. case map_of d k of None \<Rightarrow> [] | Some v \<Rightarrow> [v]) ds) =
      map (\<lambda>d. the (map_of d k)) ds"
    using assms(2) by (induction ds) auto
  with assms(1) show ?thesis
    by (simp add: append_rows_lookup dd_lookup_Nil)
qed

lemma append_rows_lookup_none:
  assumes "\<forall>d \<in> set ds. distinct (map fst d)"
    and "\<forall>d \<in> set ds. map_of d k = None"
  shows "dd_lookup (append_rows ds []) k = []"
proof -
  have "concat (map (\<lambda>d. case map_of d k of None \<Rightarrow> [] | Some v \<Rightarrow> [v]) ds) = []"
    using assms(2) by (induction ds) auto
  with assms(1) show ?thesis
    by (simp add: append_rows_lookup dd_lookup_Nil)
qed

lemma rows_lookup_name:
  assumes "n \<in> set names"
  shows "dd_lookup (append_rows (map (make_row_dict names) rows) []) (Some n) =
    map (\<lambda>row. the (map_of (make_row_dict names row) (Some n))) rows"
proof -
  have "dd_lookup (append_rows (map (make_row_dict names) rows) []) (Some n) =
      map (\<lambda>d. the (map_of d (Some n))) (map (make_row_dict names) rows)"
    using make_row_dict_has_name [OF assms]
    by (intro append_rows_lookup_all) (auto simp: make_row_dict_distinct)
  then show ?thesis by (simp add: comp_def)
qed

lemma rows_lookup_other:
  assumes "n \<notin> set names"
  shows "dd_lookup (append_rows (map (make_row_dict names) rows) []) (Some n) = []"
  using assms
  by (intro append_rows_lookup_none) (auto simp: make_row_dict_distinct make_row_dict_other)

lemma update_fresh: "k \<notin> fst ` set al \<Longrightarrow> AList.update k v al = al @ [(k, v)]"
  by (induction al) auto

lemma fold_update_fresh:
  "distinct (map fst al @ map f ks) \<Longrightarrow> length vs = length ks \<Longrightarrow>
   fold (\<lambda>(k, v). AList.update (f k) (g v)) (zip ks vs) al = al @ zip (map f ks) (map g vs)"
proof (induction ks arbitrary: vs al)
  case Nil
  then show ?case by simp
next
  case (Cons k ks)
  then obtain v vs' where vs: "vs = v # vs'" by (cases vs) auto
  from Cons.prems have fresh: "f k \<notin> fst ` set al" by auto
  have "distinct (map fst (al @ [(f k, g v)]) @ map f ks)"
    using Cons.prems by auto
  with Cons.IH [of "al @ [(f k, g v)]" vs'] Cons.prems vs fresh show ?case
    by (simp add: update_fresh)
qed

lemma make_row_dict_exact:
  assumes "distinct names" and "length row = length names"
  shows "make_row_dict names row = zip (map Some names) (map Str row)"
proof -
  have "distinct (map fst [] @ map Some names)"
    using assms(1) by (simp add: distinct_map)
  from fold_update_fresh [OF this assms(2), of Str] assms(2) show ?thesis
    by (simp add: make_row_dict_def)
qed

lemma make_row_dict_nth:
  assumes "distinct names" and "length row = length names" and "i < length names"
  shows "map_of (make_row_dict names row) (Some (names ! i)) = Some (Str (row ! i))"
proof -
  have "map_of (zip (map Some names) (map Str row)) (map Some names ! i) = Some (map Str row ! i)"
    using assms by (intro map_of_zip_nth) (simp_all add: distinct_map)
  with assms show ?thesis
    by (simp add: make_row_dict_exact)
qed

lemma aggregate_header_only:
  assumes "splitlines text_in = [header]"
  shows "fst (aggregate d text_in) = []"
proof -
  have "DictReader_next d (DictReader [header]) = Inr None \<or>
      (\<exists>e. DictReader_next d (DictReader [header]) = Inl e)"
  proof (cases "Reader_iternext d [header]")
    case (Inl e)
    then show ?thesis
      by (simp add: DictReader_next_def get_fieldnames_def DictReader_def)
  next
    case (Inr res)
    show ?thesis
    proof (cases res)
      case None
      with Inr show ?thesis
        by (simp add: DictReader_next_def get_fieldnames_def DictReader_def
            next_nonblank.simps [of d "[header]"])
    next
      case (Some p)
      obtain names rest where p: "p = (names, rest)" by (cases p)
      from Inr Some p have "Reader_iternext d [header] = Inr (Some (names, rest))" by simp
      from Reader_iternext_rest [OF this] have "rest = []" by simp
      with Inr Some p show ?thesis
        by (simp add: DictReader_next_def get_fieldnames_def DictReader_def next_nonblank_Nil)
    qed
  qed
  then show ?thesis
    using assms
    by (auto simp: aggregate_def for_loop.simps [of d "DictReader [header]"])
qed

lemma header_names_plain:
  assumes "splitlines text_in = header # data" and "d \<noteq> quotechar" and "plain_line d header"
  shows "header_names d text_in = split_fields d header"
  using assms
  by (simp add: header_names_def get_fieldnames_def DictReader_def Reader_iternext_plain)

lemma rows_lookup_None:
  "dd_lookup (append_rows (map (make_row_dict names) rows) []) None =
     map (\<lambda>row. PyList (drop (length names) row)) (filter (\<lambda>row. length names < length row) rows)"
proof -
  have "concat (map (\<lambda>row. case map_of (make_row_dict names row) None of
        None \<Rightarrow> [] | Some v \<Rightarrow> [v]) rows) =
    map (\<lambda>row. PyList (drop (length names) row)) (filter (\<lambda>row. length names < length row) rows)"
    by (induction rows) (auto simp: make_row_dict_long make_row_dict_not_long)
  moreover have "dd_lookup (append_rows (map (make_row_dict names) rows) []) None =
      dd_lookup [] None @ concat (map (\<lambda>d. case map_of d None of None \<Rightarrow> [] | Some v \<Rightarrow> [v])
        (map (make_row_dict names) rows))"
    by (rule append_rows_lookup) (auto simp: make_row_dict_distinct)
  ultimately show ?thesis
    by (simp add: dd_lookup_Nil comp_def)
qed

subsection \<open>The records the loop reads\<close>

lemma for_loop_records:
  assumes "fieldnames r = Some names"
  shows "fst (for_loop d r t) =
    append_rows (map (make_row_dict names) (reader_records d (reader_input r))) t"
  using assms
proof (induction d r t rule: for_loop.induct)
  case (1 d r t)
  have same: "get_fieldnames d r = Inr r"
    using "1.prems" by (simp add: get_fieldnames_def)
  show ?case
  proof (cases "next_nonblank d (reader_input r)")
    case (Inl e)
    then show ?thesis
      using same
      by (simp add: for_loop.simps [of d r t] DictReader_next_def
          reader_records.simps [of d "reader_input r"] append_rows_def)
  next
    case (Inr res)
    show ?thesis
    proof (cases res)
      case None
      with Inr same show ?thesis
        by (simp add: for_loop.simps [of d r t] DictReader_next_def
            reader_records.simps [of d "reader_input r"] append_rows_def)
    next
      case (Some p)
      obtain row rest where p: "p = (row, rest)" by (cases p)
      let ?r' = "r\<lparr>reader_input := rest\<rparr>"
      from Inr Some p same "1.prems"
      have next_row: "DictReader_next d r = Inr (Some (make_row_dict names row, ?r'))"
        by (simp add: DictReader_next_def)
      have names: "fieldnames ?r' = Some names" using "1.prems" by simp
      from "1.IH" [OF next_row refl refl names]
      have "fst (for_loop d ?r' (append_row (make_row_dict names row) t)) =
          append_rows (map (make_row_dict names) (reader_records d rest))
            (append_row (make_row_dict names row) t)"
        by simp
      with next_row Inr Some p show ?thesis
        by (simp add: for_loop.simps [of d r t] reader_records.simps [of d "reader_input r"]
            append_rows_def)
    qed
  qed
qed

lemma aggregate_records:
  "fst (aggregate d text_in) =
     append_rows (map (make_row_dict (header_names d text_in)) (data_records d text_in)) []"
proof (cases "get_fieldnames d (DictReader (splitlines text_in))")
  case (Inl e)
  then show ?thesis
    by (simp add: aggregate_def for_loop.simps [of d "DictReader (splitlines text_in)"]
        DictReader_next_def append_rows_def data_records_def)
next
  case (Inr r1)
  show ?thesis
  proof (cases "fieldnames r1")
    case None
    from get_fieldnames_unset [OF Inr None]
    have stop: "next_nonblank d (reader_input r1) = Inr None" .
    with Inr have "DictReader_next d (DictReader (splitlines text_in)) = Inr None"
      by (simp add: DictReader_next_def)
    with stop Inr show ?thesis
      by (simp add: aggregate_def for_loop.simps [of d "DictReader (splitlines text_in)"]
          append_rows_def data_records_def reader_records.simps [of d "reader_input r1"])
  next
    case (Some names)
    have same: "get_fieldnames d r1 = Inr r1"
      using Some by (simp add: get_fieldnames_def)
    have "DictReader_next d (DictReader (splitlines text_in)) = DictReader_next d r1"
      using Inr same by (simp add: DictReader_next_def)
    then have "for_loop d (DictReader (splitlines text_in)) [] = for_loop d r1 []"
      by (simp add: for_loop.simps [of d "DictReader (splitlines text_in)"]
          for_loop.simps [of d r1])
    moreover have "header_names d text_in = names"
      using Inr Some by (simp add: header_names_def)
    ultimately show ?thesis
      using for_loop_records [OF Some, of d "[]"] Inr by (simp add: aggregate_def data_records_def)
  qed
qed

lemma reader_records_plain:
  assumes "d \<noteq> quotechar"
    and "\<forall>line \<in> set input. line = [] \<or> plain_line d line"
  shows "reader_records d input = map (split_fields d) (filter (\<lambda>line. line \<noteq> []) input)"
  using assms(2)
proof (induction input)
  case Nil
  show ?case by (simp add: reader_records.simps [of d "[]"] next_nonblank_Nil)
next
  case (Cons line input)
  show ?case
  proof (cases "line = []")
    case True
    have "reader_records d (line # input) = reader_records d input"
      using True
      by (simp add: reader_records.simps [of d "[] # input"] reader_records.simps [of d input]
          next_nonblank_blank)
    with Cons True show ?thesis by simp
  next
    case False
    with Cons.prems have plain: "plain_line d line" by simp
    with Cons False show ?thesis
      by (simp add: reader_records.simps [of d "line # input"]
          next_nonblank_plain [OF assms(1) plain])
  qed
qed

lemma data_records_plain:
  assumes "splitlines text_in = header # data" and "d \<noteq> quotechar" and "plain_line d header"
    and "\<forall>line \<in> set data. line = [] \<or> plain_line d line"
  shows "data_records d text_in = map (split_fields d) (filter (\<lambda>line. line \<noteq> []) data)"
  using assms
  by (simp add: data_records_def get_fieldnames_def DictReader_def Reader_iternext_plain
      reader_records_plain)

text \<open>The value of a row dictionary under a field name at its last position.\<close>

lemma map_of_fold_zip_other:
  "k \<notin> f ` set ks \<Longrightarrow>
   map_of (fold (\<lambda>(k, v). AList.update (f k) (g v)) (zip ks vs) al) k = map_of al k"
proof (induction ks arbitrary: vs al)
  case Nil
  then show ?case by simp
next
  case (Cons x ks)
  then show ?case by (cases vs) (auto simp: update_conv')
qed

lemma map_of_fold_zip_last:
  assumes "i < length ks" and "i < length vs" and "ks ! i \<notin> set (drop (Suc i) ks)"
    and "inj f"
  shows "map_of (fold (\<lambda>(k, v). AList.update (f k) (g v)) (zip ks vs) al) (f (ks ! i)) =
    Some (g (vs ! i))"
  using assms(1-3)
proof (induction ks arbitrary: vs al i)
  case Nil
  then show ?case by simp
next
  case (Cons x ks)
  from Cons.prems(2) obtain v vs' where vs: "vs = v # vs'" by (cases vs) auto
  show ?case
  proof (cases i)
    case 0
    with Cons.prems(3) have "x \<notin> set ks" by simp
    then have "f x \<notin> f ` set ks" using assms(4) by (auto dest: injD)
    from 0 vs show ?thesis
      by (simp add: map_of_fold_zip_other [OF \<open>f x \<notin> f ` set ks\<close>] update_conv')
  next
    case (Suc j)
    with Cons.prems vs have "j < length ks" "j < length vs'" "ks ! j \<notin> set (drop (Suc j) ks)"
      by simp_all
    from Cons.IH [OF this] Suc vs show ?thesis by simp
  qed
qed

lemma make_row_dict_at:
  assumes "i < length names" and "names ! i \<notin> set (drop (Suc i) names)"
  shows "map_of (make_row_dict names row) (Some (names ! i)) =
    Some (if i < length row then Str (row ! i) else PyNone)"
proof (cases "i < length row")
  case False
  then have "length row \<le> i" by simp
  from make_row_dict_short [OF this assms(1)] False show ?thesis by simp
next
  case True
  have zipped: "map_of (fold (\<lambda>(k, v). AList.update (Some k) (Str v)) (zip names row) [])
      (Some (names ! i)) = Some (Str (row ! i))"
    by (rule map_of_fold_zip_last [OF assms(1) True assms(2)]) simp
  have "set (drop (length row) names) \<subseteq> set (drop (Suc i) names)"
    using True by (intro set_drop_subset_set_drop) simp
  with assms(2) have other: "Some (names ! i) \<notin> Some ` set (drop (length row) names)"
    by auto
  from zipped True show ?thesis
    by (simp add: make_row_dict_def Let_def update_conv' map_of_fold_update_other [OF other])
qed

lemma records_cell:
  assumes "k < length rows" and "i < length names" and "names ! i \<notin> set (drop (Suc i) names)"
  shows "dd_lookup (append_rows (map (make_row_dict names) rows) []) (Some (names ! i)) ! k =
    (if i < length (rows ! k) then Str (rows ! k ! i) else PyNone)"
proof -
  have "names ! i \<in> set names" using assms(2) by simp
  from rows_lookup_name [OF this] assms(1) make_row_dict_at [OF assms(2,3)]
  show ?thesis by simp
qed

text \<open>The definitions that evaluate the cell on a given text.\<close>

lemmas eval_defs = aggregate_def splitlines_def is_linebreak_def LF_def CR_def NUL_def
  for_loop.simps DictReader_next_def get_fieldnames_def DictReader_def next_nonblank.simps
  Reader_iternext_def parse_reset_def parse_process_char_def start_field_def parse_add_char_def
  parse_save_field_def set_state_def ends_line_def after_line_def quotechar_def field_limit_def
  make_row_dict_def append_row_def append_value_def dd_getitem_def

subsection \<open>A field longer than the limit\<close>

lemma process_chars_replicate:
  assumes "state r = IN_FIELD" and "c \<noteq> LF" and "c \<noteq> CR" and "c \<noteq> d"
    and "length (field_buf r) \<le> field_limit" and "c \<noteq> NUL"
  shows "process_chars d r (replicate n c) =
    (if length (field_buf r) + n \<le> field_limit
     then Inr (r\<lparr>field_buf := field_buf r @ replicate n c\<rparr>)
     else Inl FieldLargerThanFieldLimit)"
  using assms(1,5)
proof (induction n arbitrary: r)
  case 0
  then show ?case by simp
next
  case (Suc n)
  show ?case
  proof (cases "field_limit \<le> length (field_buf r)")
    case True
    with Suc.prems assms(2-4,6) show ?thesis
      by (simp add: parse_process_char_def ends_line_def parse_add_char_def)
  next
    case False
    let ?r = "r\<lparr>field_buf := field_buf r @ [c]\<rparr>"
    from False Suc.prems assms(2-4) have step: "parse_process_char d r (Some c) = Inr ?r"
      by (simp add: parse_process_char_def ends_line_def parse_add_char_def)
    have "state ?r = IN_FIELD" "length (field_buf ?r) \<le> field_limit"
      using Suc.prems False by simp_all
    from Suc.IH [OF this] step assms(6) show ?thesis
      by (simp add: replicate_app_Cons_same)
  qed
qed

lemma splitlines_from_replicate:
  assumes "\<not> is_linebreak c"
  shows "splitlines_from cur (c # replicate n c) = [cur @ c # replicate n c]"
proof (induction n arbitrary: cur)
  case 0
  with assms show ?case by simp
next
  case (Suc n)
  from assms have "c \<noteq> CR" by (simp add: is_linebreak_def)
  with assms Suc [of "cur @ [c]"] show ?case by simp
qed

lemma long_field_lines:
  "splitlines (''zone'' @ [CHR 0x0A] @ ''1'' @ [CHR 0x0A, CHR ''7''] @ replicate n CHR ''7'') =
     [''zone'', ''1'', CHR ''7'' # replicate n CHR ''7'']"
proof -
  have "\<not> is_linebreak CHR ''7''"
    by (simp add: is_linebreak_def LF_def CR_def)
  from splitlines_from_replicate [OF this, of "[]" n] show ?thesis
    by (simp add: splitlines_def is_linebreak_def LF_def CR_def)
qed

lemma long_field_reader:
  assumes "field_limit < Suc n"
  shows "Reader_iternext CHR ''|'' [CHR ''7'' # replicate n CHR ''7''] = Inl FieldLargerThanFieldLimit"
proof -
  let ?r = "\<lparr>state = IN_FIELD, row_fields = [], field_buf = ''7''\<rparr>"
  have first: "parse_process_char CHR ''|'' parse_reset (Some CHR ''7'') = Inr ?r"
    by (simp add: parse_process_char_def parse_reset_def start_field_def ends_line_def
        parse_add_char_def set_state_def field_limit_def LF_def CR_def quotechar_def)
  have "process_chars CHR ''|'' ?r (replicate n CHR ''7'') = Inl FieldLargerThanFieldLimit"
    using assms
    by (subst process_chars_replicate) (simp_all add: LF_def CR_def NUL_def field_limit_def)
  with first show ?thesis
    by (simp add: Reader_iternext_def NUL_def)
qed

lemma long_field_error:
  assumes "field_limit < Suc n"
  shows "aggregate CHR ''|''
      (''zone'' @ [CHR 0x0A] @ ''1'' @ [CHR 0x0A, CHR ''7''] @ replicate n CHR ''7'') =
    ([(Some ''zone'', [Str ''1''])], Some FieldLargerThanFieldLimit)"
proof -
  have header: "Reader_iternext CHR ''|'' (''zone'' # rest) = Inr (Some ([''zone''], rest))" for rest
    by (simp add: eval_defs)
  have row: "Reader_iternext CHR ''|'' (''1'' # rest) = Inr (Some ([''1''], rest))" for rest
    by (simp add: eval_defs)
  show ?thesis
    unfolding aggregate_def long_field_lines
    by (simp add: for_loop.simps DictReader_next_def get_fieldnames_def DictReader_def
        next_nonblank.simps header row long_field_reader [OF assms]
        make_row_dict_def append_row_def append_value_def dd_getitem_def)
qed

subsection \<open>Well-formed input without quoting\<close>

lemma simple_plain:
  assumes "splitlines text_in = lines" and "line \<in> set lines" and "simple_line d line"
  shows "plain_line d line"
proof -
  from splitlines_no_newline [of text_in] assms(1,2) have "no_newline line"
    by (auto simp: list_all_iff)
  with assms(3) show ?thesis
    by (auto simp: plain_line_def simple_line_def no_newline_def list_all_iff)
qed

lemma aggregate_simple:
  assumes "splitlines text_in = header # data"
    and "d \<noteq> quotechar"
    and "list_all (simple_line d) (header # data)"
  shows "aggregate d text_in =
    (append_rows (map (make_row_dict (split_fields d header)) (map (split_fields d) data)) [],
     None)"
proof -
  have header: "plain_line d header"
    using assms(1,3) by (intro simple_plain [OF assms(1)]) simp_all
  have data: "\<forall>line \<in> set data. line = [] \<or> plain_line d line"
    using assms(1,3) by (auto simp: list_all_iff intro: simple_plain [OF assms(1)])
  have "filter (\<lambda>line. line \<noteq> []) data = data"
    using assms(3) by (auto simp: list_all_iff simple_line_def filter_id_conv)
  with aggregate_plain [OF assms(1,2) header data] show ?thesis
    by (simp add: comp_def)
qed

lemma simple_column:
  assumes "splitlines text_in = header # data"
    and "d \<noteq> quotechar"
    and "list_all (simple_line d) (header # data)"
    and "name \<in> set (split_fields d header)"
  shows "dd_lookup (fst (aggregate d text_in)) (Some name) =
    map (\<lambda>line. the (map_of (make_row_dict (split_fields d header) (split_fields d line))
      (Some name))) data"
proof -
  have "dd_lookup (append_rows (map (make_row_dict (split_fields d header))
        (map (split_fields d) data)) []) (Some name) =
      map (\<lambda>row. the (map_of (make_row_dict (split_fields d header) row) (Some name)))
        (map (split_fields d) data)"
    by (rule rows_lookup_name [OF assms(4)])
  then show ?thesis
    unfolding aggregate_simple [OF assms(1-3)] by (simp add: comp_def)
qed

lemma simple_cell:
  assumes "splitlines text_in = header # data"
    and "d \<noteq> quotechar"
    and "list_all (simple_line d) (header # data)"
    and "well_formed d header data"
    and "k < length data"
    and "i < length (split_fields d header)"
  shows "dd_lookup (fst (aggregate d text_in)) (Some (split_fields d header ! i)) ! k =
    Str (split_fields d (data ! k) ! i)"
proof -
  let ?names = "split_fields d header"
  have name: "?names ! i \<in> set ?names" using assms(6) by simp
  have len: "length (split_fields d (data ! k)) = length ?names"
    using assms(4,5) by (simp add: well_formed_def list_all_length)
  have "distinct ?names" using assms(4) by (simp add: well_formed_def)
  from make_row_dict_nth [OF this len assms(6)] assms(5) show ?thesis
    by (simp add: simple_column [OF assms(1-3) name])
qed

lemma simple_keys:
  assumes "splitlines text_in = header # data"
    and "d \<noteq> quotechar"
    and "list_all (simple_line d) (header # data)"
    and "well_formed d header data"
  shows "fst ` set (fst (aggregate d text_in)) =
      (if data = [] then {} else Some ` set (split_fields d header))"
    and "distinct (map fst (fst (aggregate d text_in)))"
proof -
  let ?names = "split_fields d header"
  have keys: "fst ` set (make_row_dict ?names (split_fields d line)) = Some ` set ?names"
    if "line \<in> set data" for line
    using that assms(4) by (simp add: make_row_dict_keys well_formed_def list_all_iff)
  show "fst ` set (fst (aggregate d text_in)) =
      (if data = [] then {} else Some ` set (split_fields d header))"
    using keys by (auto simp: aggregate_simple [OF assms(1-3)] append_rows_keys)
  show "distinct (map fst (fst (aggregate d text_in)))"
    by (simp add: aggregate_simple [OF assms(1-3)] append_rows_distinct)
qed

lemma cell_strings_Str: "cell_strings (map Str fs) = Some fs"
  by (induction fs) simp_all

lemma simple_row:
  assumes "splitlines text_in = header # data"
    and "d \<noteq> quotechar"
    and "list_all (simple_line d) (header # data)"
    and "well_formed d header data"
    and "k < length data"
  shows "table_row (fst (aggregate d text_in)) (split_fields d header) k =
    Some (map Str (split_fields d (data ! k)))"
proof -
  let ?names = "split_fields d header"
  let ?t = "fst (aggregate d text_in)"
  have len: "length (split_fields d (data ! k)) = length ?names"
    using assms(4,5) by (simp add: well_formed_def list_all_length)
  have "k < length (dd_lookup ?t (Some name))" if "name \<in> set ?names" for name
    using simple_column [OF assms(1-3) that] assms(5) by simp
  then have "table_row ?t ?names k = Some (map (\<lambda>name. dd_lookup ?t (Some name) ! k) ?names)"
    by (simp add: table_row_def list_all_iff)
  moreover have "map (\<lambda>name. dd_lookup ?t (Some name) ! k) ?names =
      map Str (split_fields d (data ! k))"
    using len simple_cell [OF assms]
    by (intro nth_equalityI) simp_all
  ultimately show ?thesis by simp
qed

text \<open>Two inputs for the instances below.\<close>

lemma claim_lines:
  "splitlines (''zone|mean'' @ [CHR 0x0A] @ ''1|12.5'' @ [CHR 0x0A] @ ''2|8.0'') =
     [''zone|mean'', ''1|12.5'', ''2|8.0'']"
  by (simp add: splitlines_def is_linebreak_def LF_def CR_def)

lemma claim_simple:
  "list_all (simple_line CHR ''|'') [''zone|mean'', ''1|12.5'', ''2|8.0'']"
  by (simp add: simple_line_def NUL_def field_limit_def split_fields_def starts_with_quote_def
      quotechar_def)

lemma claim_well_formed: "well_formed CHR ''|'' ''zone|mean'' [''1|12.5'', ''2|8.0'']"
  by (simp add: well_formed_def split_fields_def)

lemma claim_separator: "CHR ''|'' \<noteq> quotechar"
  by (simp add: quotechar_def)

lemma short_lines:
  "splitlines (''a|b'' @ [CHR 0x0A] @ ''1'' @ [CHR 0x0A] @ ''1|2|3'') = [''a|b'', ''1'', ''1|2|3'']"
  by (simp add: splitlines_def is_linebreak_def LF_def CR_def)

lemma short_simple: "list_all (simple_line CHR ''|'') [''a|b'', ''1'', ''1|2|3'']"
  by (simp add: simple_line_def NUL_def field_limit_def split_fields_def starts_with_quote_def
      quotechar_def)

subsection \<open>The result of the conversion\<close>

lemma map_of_fold_zip_value:
  "map_of (fold (\<lambda>(k, v). AList.update (f k) (g v)) kvs al) x = Some y \<Longrightarrow>
   y \<in> range g \<or> map_of al x = Some y"
proof (induction kvs arbitrary: al)
  case Nil
  then show ?case by simp
next
  case (Cons kv kvs)
  obtain k v where kv: "kv = (k, v)" by (cases kv)
  from Cons.prems kv
  have "map_of (fold (\<lambda>(k, v). AList.update (f k) (g v)) kvs (AList.update (f k) (g v) al)) x =
      Some y"
    by simp
  from Cons.IH [OF this] show ?case
    by (auto simp: update_conv' split: if_splits)
qed

lemma make_row_dict_scalar:
  assumes "map_of (make_row_dict names row) (Some n) = Some v"
  shows "\<not> is_sequence v"
proof -
  let ?d = "fold (\<lambda>(k, v). AList.update (Some k) (Str v)) (zip names row) []"
  have zipped: "\<not> is_sequence w" if "map_of ?d (Some n) = Some w" for w
    using map_of_fold_zip_value [OF that] by (auto simp: is_sequence_def)
  show ?thesis
  proof (cases "Some n \<in> Some ` set (drop (length row) names)")
    case True
    from map_of_fold_update_const [OF True, of PyNone ?d] assms zipped show ?thesis
      by (auto simp: make_row_dict_def Let_def update_conv' is_sequence_def split: if_splits)
  next
    case False
    from map_of_fold_update_other [OF False, of PyNone ?d] assms zipped show ?thesis
      by (auto simp: make_row_dict_def Let_def update_conv' split: if_splits)
  qed
qed

lemma named_column_scalar:
  "\<not> list_ex is_sequence (dd_lookup (fst (aggregate d text_in)) (Some name))"
proof (cases "name \<in> set (header_names d text_in)")
  case True
  have "\<not> is_sequence (the (map_of (make_row_dict (header_names d text_in) row) (Some name)))"
    for row
    using make_row_dict_has_name [OF True, of row] make_row_dict_scalar by fastforce
  then show ?thesis
    by (simp add: aggregate_records rows_lookup_name [OF True] list_ex_iff)
next
  case False
  then show ?thesis
    by (simp add: aggregate_records rows_lookup_other)
qed

lemma first_refused_Some:
  "first_refused vs = Some s \<Longrightarrow> Str s \<in> set vs \<and> PyFloat_FromString s = None"
  by (induction vs rule: first_refused.induct) (auto split: if_splits)

lemma first_refused_None:
  "first_refused vs = None \<longleftrightarrow> (\<forall>s. Str s \<in> set vs \<longrightarrow> PyFloat_FromString s \<noteq> None)"
  by (induction vs rule: first_refused.induct) auto

lemma setitems_refused:
  assumes "first_refused vs = Some s" and "\<not> list_ex is_sequence vs"
  shows "setitems vs = Inl (ValueError s)"
  using assms
proof (induction vs)
  case Nil
  then show ?case by simp
next
  case (Cons v vs)
  then show ?case
    by (cases v) (auto simp: FLOAT_setitem_def is_sequence_def split: if_splits option.splits)
qed

lemma setitems_array:
  assumes "first_refused vs = None" and "\<not> list_ex is_sequence vs"
  shows "\<exists>array. setitems vs = Inr array \<and>
    list_all2 (\<lambda>v x. FLOAT_setitem v = Inr x) vs array"
  using assms
proof (induction vs)
  case Nil
  then show ?case by simp
next
  case (Cons v vs)
  then show ?case
    by (cases v) (auto simp: FLOAT_setitem_def is_sequence_def split: if_splits option.splits)
qed

lemma convert_column_values:
  "fst (convert_column columns name) = np_array (dd_lookup columns (Some name))"
  by (simp add: convert_column_def dd_lookup_def split: prod.splits)

text \<open>The definitions that evaluate the conversion of a value.\<close>

lemmas float_defs = FLOAT_setitem_def PyFloat_FromString_def TransformDecimalAndSpaceToASCII_def
  Py_ISSPACE_def Py_UNICODE_ISSPACE_def string_to_number_with_underscores_def
  float_from_string_inner_def PyOS_string_to_double_def parse_inf_or_nan_def
  case_insensitive_match_def Py_TOLOWER_def dg_strtod_def parse_exponent_def MAX_DIGITS_def
  take_sign_def digits_value_def is_digit_def double_to_float_def decimal_to_double_def
  round_nearest_even_def odd_mantissa.simps floor_log2_def scale2_def ilog2.simps NUL_def

text \<open>Two tables and the conversion of three strings, for the instances below.\<close>

lemma conversion_table:
  "fst (aggregate CHR ''|'' (''mean|stddev'' @ [CHR 0x0A] @ ''12|abc'' @ [CHR 0x0A] @ ''abc|2.5'')) =
     [(Some ''mean'', [Str ''12'', Str ''abc'']), (Some ''stddev'', [Str ''abc'', Str ''2.5''])]"
  by (simp add: eval_defs)

lemma padded_table:
  "fst (aggregate CHR ''|'' (''zone|mean'' @ [CHR 0x0A] @ ''1|2.5'' @ [CHR 0x0A] @ ''2'')) =
     [(Some ''zone'', [Str ''1'', Str ''2'']), (Some ''mean'', [Str ''2.5'', PyNone])]"
  by (simp add: eval_defs)

lemma float_abc: "PyFloat_FromString ''abc'' = None"
  by (simp add: float_defs)

lemma float_12: "PyFloat_FromString ''12'' = Some (Finite False 3 2)"
  by (simp add: float_defs Let_def)

lemma float_2_5: "PyFloat_FromString ''2.5'' = Some (Finite False 5 (- 1))"
  by (simp add: float_defs Let_def)

lemma cast_12: "double_to_float (Finite False 3 2) = Finite False 3 2"
  by (simp add: float_defs Let_def)

lemma cast_2_5: "double_to_float (Finite False 5 (- 1)) = Finite False 5 (- 1)"
  by (simp add: float_defs Let_def)

text \<open>Further inputs for the instances below.\<close>

lemma scenario_lines:
  "splitlines (''zone|mean|stddev'' @ [CHR 0x0A] @ ''1|12.5|3.2'' @ [CHR 0x0A] @ ''2|8.0|1.1'') =
     [''zone|mean|stddev'', ''1|12.5|3.2'', ''2|8.0|1.1'']"
  by (simp add: splitlines_def is_linebreak_def LF_def CR_def)

lemma witness_lines:
  "splitlines (''zone|mean'' @ [CHR 0x0A] @ ''1|2.5'') = [''zone|mean'', ''1|2.5'']"
  by (simp add: splitlines_def is_linebreak_def LF_def CR_def)

lemma witness_header:
  "header_names CHR ''|'' (''zone|mean'' @ [CHR 0x0A] @ ''1|2.5'') = [''zone'', ''mean'']"
  using header_names_plain [OF witness_lines, of "CHR ''|''"]
  by (simp add: quotechar_def plain_line_def NUL_def field_limit_def LF_def CR_def split_fields_def
      starts_with_quote_def)

lemma short_header:
  "header_names CHR ''|'' (''a|b'' @ [CHR 0x0A] @ ''1'' @ [CHR 0x0A] @ ''1|2|3'') = [''a'', ''b'']"
  using header_names_plain [OF short_lines, of "CHR ''|''"]
  by (simp add: quotechar_def plain_line_def NUL_def field_limit_def LF_def CR_def split_fields_def
      starts_with_quote_def)

lemma short_records:
  "data_records CHR ''|'' (''a|b'' @ [CHR 0x0A] @ ''1'' @ [CHR 0x0A] @ ''1|2|3'') =
     [[''1''], [''1'', ''2'', ''3'']]"
  using data_records_plain [OF short_lines, of "CHR ''|''"]
  by (simp add: quotechar_def plain_line_def NUL_def field_limit_def LF_def CR_def split_fields_def
      starts_with_quote_def)

subsection \<open>The namespace after the cell\<close>




section \<open>The claims of the specification\<close>

text \<open>
  C1, as stated, fails twice. A header line alone (N = 0) leaves a table without entries,
  not one entry per header column. And a field that opens with a double quote is read by
  the reader as a quoted field: below, two data lines of two delimiter-separated fields
  each are read as one record, so both columns have length 1 and not 2.
\<close>

theorem table_shape_counterexample:
  "aggregate CHR ''|'' ''zone|mean|stddev'' = ([], None) \<and>
   splitlines ''zone|mean|stddev'' = [''zone|mean|stddev''] \<and>
   length (split_fields CHR ''|'' ''zone|mean|stddev'') = 3 \<and>
   well_formed CHR ''|'' ''zone|mean|stddev'' [] \<and>
   splitlines (''a|b'' @ [CHR 0x0A, CHR 0x22] @ ''x|1'' @ [CHR 0x0A] @ ''y'' @ [CHR 0x22] @ ''|2'') =
     [''a|b'', [CHR 0x22] @ ''x|1'', ''y'' @ [CHR 0x22] @ ''|2''] \<and>
   well_formed CHR ''|'' ''a|b'' [[CHR 0x22] @ ''x|1'', ''y'' @ [CHR 0x22] @ ''|2''] \<and>
   aggregate CHR ''|''
     (''a|b'' @ [CHR 0x0A, CHR 0x22] @ ''x|1'' @ [CHR 0x0A] @ ''y'' @ [CHR 0x22] @ ''|2'') =
     ([(Some ''a'', [Str ''x|1y'']), (Some ''b'', [Str ''2''])], None)"
  by (simp add: eval_defs well_formed_def split_fields_def)

text \<open>
  C1, amended. Let the text split into a header line and N data lines, with a separator
  other than the double quote, every line non-empty, at most 131072 characters long,
  without a NUL character and without a field that begins with a double quote, the header
  names unique and every data line with as many delimiter-separated fields as the header.
  Then the loop ends without an error, every sequence in the table has length N, and the
  table has as many entries as the header has columns when N > 0 (none when N = 0).
\<close>

theorem table_shape:
  assumes "splitlines text_in = header # data"
    and "separator \<noteq> quotechar"
    and "list_all (simple_line separator) (header # data)"
    and "well_formed separator header data"
  shows "snd (aggregate separator text_in) = None \<and>
    length (fst (aggregate separator text_in)) =
      (if data = [] then 0 else length (split_fields separator header)) \<and>
    list_all (\<lambda>(name, vals). length vals = length data)
      (fst (aggregate separator text_in))"
proof -
  let ?names = "split_fields separator header"
  let ?t = "fst (aggregate separator text_in)"
  note keys = simple_keys [OF assms]
  have "snd (aggregate separator text_in) = None"
    by (simp add: aggregate_simple [OF assms(1-3)])
  moreover have "length ?t = (if data = [] then 0 else length ?names)"
  proof -
    have "length ?t = card (fst ` set ?t)"
      using distinct_card [OF keys(2)] by simp
    also have "\<dots> = (if data = [] then 0 else card (Some ` set ?names))"
      by (simp add: keys(1))
    also have "card (Some ` set ?names) = length ?names"
      using assms(4) by (simp add: card_image distinct_card well_formed_def)
    finally show ?thesis .
  qed
  moreover have "list_all (\<lambda>(name, vals). length vals = length data) ?t"
  proof -
    have "length vals = length data" if "(key, vals) \<in> set ?t" for key vals
    proof -
      from that have "key \<in> fst ` set ?t" by force
      with keys(1) obtain name where name: "key = Some name" "name \<in> set ?names"
        by (auto split: if_splits)
      from that keys(2) have "map_of ?t key = Some vals" by simp
      then have "dd_lookup ?t (Some name) = vals"
        using name(1) by (simp add: dd_lookup_eq)
      with simple_column [OF assms(1-3) name(2)] show ?thesis by simp
    qed
    then show ?thesis by (auto simp: list_all_iff)
  qed
  ultimately show ?thesis by blast
qed

theorem table_shape_witness:
  "snd (aggregate CHR ''|'' (''zone|mean'' @ [CHR 0x0A] @ ''1|12.5'' @ [CHR 0x0A] @ ''2|8.0'')) =
     None \<and>
   length (fst (aggregate CHR ''|''
     (''zone|mean'' @ [CHR 0x0A] @ ''1|12.5'' @ [CHR 0x0A] @ ''2|8.0''))) = 2 \<and>
   list_all (\<lambda>(name, vals). length vals = 2)
     (fst (aggregate CHR ''|'' (''zone|mean'' @ [CHR 0x0A] @ ''1|12.5'' @ [CHR 0x0A] @ ''2|8.0'')))"
  using table_shape [OF claim_lines claim_separator claim_simple claim_well_formed]
  by (simp add: split_fields_def numeral_2_eq_2)

text \<open>
  C2. With the separator \<open>|\<close> and the text of the three lines \<open>zone|mean|stddev\<close>,
  \<open>1|12.5|3.2\<close> and \<open>2|8.0|1.1\<close>, the loop ends without an error and leaves exactly the
  table that maps \<open>zone\<close> to \<open>["1","2"]\<close>, \<open>mean\<close> to \<open>["12.5","8.0"]\<close> and \<open>stddev\<close> to
  \<open>["3.2","1.1"]\<close>.
\<close>

theorem concrete_scenario:
  "aggregate CHR ''|''
     (''zone|mean|stddev'' @ [CHR 0x0A] @ ''1|12.5|3.2'' @ [CHR 0x0A] @ ''2|8.0|1.1'') =
   ([(Some ''zone'', [Str ''1'', Str ''2'']),
     (Some ''mean'', [Str ''12.5'', Str ''8.0'']),
     (Some ''stddev'', [Str ''3.2'', Str ''1.1''])], None)"
proof -
  have "aggregate CHR ''|''
     (''zone|mean|stddev'' @ [CHR 0x0A] @ ''1|12.5|3.2'' @ [CHR 0x0A] @ ''2|8.0|1.1'') =
    (append_rows
       (map (\<lambda>line. make_row_dict (split_fields CHR ''|'' ''zone|mean|stddev'')
               (split_fields CHR ''|'' line))
          (filter (\<lambda>line. line \<noteq> []) [''1|12.5|3.2'', ''2|8.0|1.1''])) [], None)"
    by (rule aggregate_plain [OF scenario_lines])
       (simp_all add: quotechar_def plain_line_def NUL_def field_limit_def LF_def CR_def
         split_fields_def starts_with_quote_def)
  then show ?thesis
    by (simp add: split_fields_def make_row_dict_def append_rows_def append_row_def
        append_value_def dd_getitem_def)
qed

text \<open>
  C3, as stated, fails: below, the first data line holds \<open>2.5\<close> in the position of \<open>mean\<close>,
  but its opening quote makes the reader join both data lines into one record of a single
  field, and the column \<open>mean\<close> holds one \<open>None\<close>.
\<close>

theorem row_order_counterexample:
  "splitlines (''zone|mean'' @ [CHR 0x0A, CHR 0x22] @ ''1|2.5'' @ [CHR 0x0A] @ ''2|3.5'' @ [CHR 0x22]) =
     [''zone|mean'', [CHR 0x22] @ ''1|2.5'', ''2|3.5'' @ [CHR 0x22]] \<and>
   well_formed CHR ''|'' ''zone|mean'' [[CHR 0x22] @ ''1|2.5'', ''2|3.5'' @ [CHR 0x22]] \<and>
   split_fields CHR ''|'' ([CHR 0x22] @ ''1|2.5'') ! 1 = ''2.5'' \<and>
   dd_lookup (fst (aggregate CHR ''|''
     (''zone|mean'' @ [CHR 0x0A, CHR 0x22] @ ''1|2.5'' @ [CHR 0x0A] @ ''2|3.5'' @ [CHR 0x22])))
     (Some ''mean'') = [PyNone]"
  by (simp add: eval_defs well_formed_def split_fields_def dd_lookup_eq)

text \<open>
  C3, amended. For every input as in C1 (amended), every data line k and every header
  position i, the column of the i-th field name has a k-th element, and it is the string
  that the k-th data line holds in position i.
\<close>

theorem row_order_preserved:
  assumes "splitlines text_in = header # data"
    and "separator \<noteq> quotechar"
    and "list_all (simple_line separator) (header # data)"
    and "well_formed separator header data"
    and "k < length data"
    and "i < length (split_fields separator header)"
  shows "k < length (dd_lookup (fst (aggregate separator text_in))
      (Some (split_fields separator header ! i))) \<and>
    dd_lookup (fst (aggregate separator text_in)) (Some (split_fields separator header ! i)) ! k =
      Str (split_fields separator (data ! k) ! i)"
proof -
  have "split_fields separator header ! i \<in> set (split_fields separator header)"
    using assms(6) by simp
  from simple_column [OF assms(1-3) this] assms(5)
  have "k < length (dd_lookup (fst (aggregate separator text_in))
      (Some (split_fields separator header ! i)))"
    by simp
  with simple_cell [OF assms] show ?thesis by simp
qed

theorem row_order_preserved_witness:
  "dd_lookup (fst (aggregate CHR ''|''
      (''zone|mean'' @ [CHR 0x0A] @ ''1|12.5'' @ [CHR 0x0A] @ ''2|8.0''))) (Some ''mean'') ! 1 =
     Str ''8.0''"
  using row_order_preserved [OF claim_lines claim_separator claim_simple claim_well_formed,
      of 1 1]
  by (simp add: split_fields_def)

text \<open>
  C4, as stated, fails: the reader drops the quotes of a quoted field, so re-joining the
  row read from the line \<open>"x"|y\<close> gives \<open>x|y\<close>.
\<close>

theorem rejoin_counterexample:
  "splitlines (''a|b'' @ [CHR 0x0A, CHR 0x22] @ ''x'' @ [CHR 0x22] @ ''|y'') =
     [''a|b'', [CHR 0x22] @ ''x'' @ [CHR 0x22] @ ''|y''] \<and>
   well_formed CHR ''|'' ''a|b'' [[CHR 0x22] @ ''x'' @ [CHR 0x22] @ ''|y''] \<and>
   Option.bind
     (table_row (fst (aggregate CHR ''|''
        (''a|b'' @ [CHR 0x0A, CHR 0x22] @ ''x'' @ [CHR 0x22] @ ''|y''))) [''a'', ''b''] 0)
     (rejoin CHR ''|'') = Some ''x|y'' \<and>
   ''x|y'' \<noteq> [CHR 0x22] @ ''x'' @ [CHR 0x22] @ ''|y''"
  by (simp add: eval_defs well_formed_def split_fields_def table_row_def dd_lookup_eq
      rejoin_def)

text \<open>
  C4, amended. For every input as in C1 (amended) and every data line k, joining the
  k-th elements of the columns, in header order, with the separator gives the k-th data
  line, character for character.
\<close>

theorem rejoin_reproduces_line:
  assumes "splitlines text_in = header # data"
    and "separator \<noteq> quotechar"
    and "list_all (simple_line separator) (header # data)"
    and "well_formed separator header data"
    and "k < length data"
  shows "Option.bind
      (table_row (fst (aggregate separator text_in)) (split_fields separator header) k)
      (rejoin separator) = Some (data ! k)"
proof -
  have "join separator (split_fields separator (data ! k)) = data ! k"
    using join_split_from [of separator "[]" "data ! k"] by (simp add: split_fields_def)
  then show ?thesis
    by (simp add: simple_row [OF assms] rejoin_def cell_strings_Str)
qed

theorem rejoin_reproduces_line_witness:
  "Option.bind
     (table_row (fst (aggregate CHR ''|''
        (''zone|mean'' @ [CHR 0x0A] @ ''1|12.5'' @ [CHR 0x0A] @ ''2|8.0''))) [''zone'', ''mean''] 1)
     (rejoin CHR ''|'') = Some ''2|8.0''"
  using rejoin_reproduces_line [OF claim_lines claim_separator claim_simple claim_well_formed,
      of 1]
  by (simp add: split_fields_def)

text \<open>
  C5, as the specification states it, fails: after a text that is only a header line the
  table has no key at all, so the header names are not present as keys.
\<close>

theorem header_only_counterexample:
  "Some ''zone'' \<notin> fst ` set (fst (aggregate CHR ''|'' ''zone|mean'')) \<and>
   splitlines ''zone|mean'' = [''zone|mean'']"
  by (simp add: eval_defs)

text \<open>
  C5, amended. For every text that is a single (header) line, the loop leaves the empty
  table; no column name is a key of it, and reading any column name from it returns an
  empty list. The loop ends without an error unless the text is longer than the field
  limit or holds a NUL character.
\<close>

theorem header_only_table:
  assumes "splitlines text_in = [header]"
  shows "fst (aggregate separator text_in) = [] \<and>
    fst (dd_getitem (fst (aggregate separator text_in)) (Some name)) = [] \<and>
    (snd (aggregate separator text_in) = None \<or> field_limit < length text_in \<or>
     NUL \<in> set text_in)"
proof -
  have "fst (aggregate separator text_in) = []"
    using assms by (rule aggregate_header_only)
  moreover have "snd (aggregate separator text_in) = None \<or> field_limit < length text_in \<or>
      NUL \<in> set text_in"
    using aggregate_ok [where d = separator and text_in = text_in] by blast
  ultimately show ?thesis
    by (simp add: dd_getitem_def)
qed

theorem header_only_table_witness:
  "fst (aggregate CHR ''|'' ''zone|mean'') = [] \<and>
   fst (dd_getitem (fst (aggregate CHR ''|'' ''zone|mean'')) (Some ''zone'')) = [] \<and>
   snd (aggregate CHR ''|'' ''zone|mean'') = None"
proof -
  have lines: "splitlines ''zone|mean'' = [''zone|mean'']"
    by (simp add: splitlines_def is_linebreak_def LF_def CR_def)
  from header_only_table [OF lines, where separator = "CHR ''|''" and name = "''zone''"]
  show ?thesis
    by (simp add: field_limit_def NUL_def dd_getitem_def)
qed

text \<open>
  C6, as stated, fails: a data line with one field fewer than the header raises nothing.
  The loop completes and the table holds the row, padded with \<open>None\<close>.
\<close>

theorem mismatched_line_counterexample:
  "aggregate CHR ''|'' (''a|b'' @ [CHR 0x0A] @ ''1'') =
     ([(Some ''a'', [Str ''1'']), (Some ''b'', [PyNone])], None) \<and>
   length (split_fields CHR ''|'' ''a|b'') = 2 \<and>
   length (split_fields CHR ''|'' ''1'') = 1"
  by (simp add: eval_defs split_fields_def)

text \<open>
  C6, amended. Let the text split into a header line and N data lines, with a separator
  other than the double quote and every line non-empty, at most 131072 characters long,
  without a NUL character and without a field that begins with a double quote, and let the
  k-th data line have a field count different from the header's. Then no error is raised;
  the table is complete, every header column holding N entries; when the line is short,
  the k-th entry of every column beyond the line's fields is \<open>None\<close>; when the line is
  long, its surplus fields are, as a list, among the entries under the key \<open>None\<close>.
\<close>

theorem mismatched_line_is_padded:
  assumes "splitlines text_in = header # data"
    and "separator \<noteq> quotechar"
    and "list_all (simple_line separator) (header # data)"
    and "k < length data"
    and "length (split_fields separator (data ! k)) \<noteq> length (split_fields separator header)"
  shows "snd (aggregate separator text_in) = None \<and>
    list_all (\<lambda>name. length (dd_lookup (fst (aggregate separator text_in)) (Some name)) =
        length data) (split_fields separator header) \<and>
    (length (split_fields separator (data ! k)) \<le> i \<and>
       i < length (split_fields separator header) \<longrightarrow>
     dd_lookup (fst (aggregate separator text_in)) (Some (split_fields separator header ! i)) ! k =
       PyNone) \<and>
    (length (split_fields separator header) < length (split_fields separator (data ! k)) \<longrightarrow>
     PyList (drop (length (split_fields separator header)) (split_fields separator (data ! k)))
       \<in> set (dd_lookup (fst (aggregate separator text_in)) None))"
proof -
  let ?names = "split_fields separator header"
  let ?row = "split_fields separator (data ! k)"
  let ?t = "fst (aggregate separator text_in)"
  note table = aggregate_simple [OF assms(1-3)]
  have "snd (aggregate separator text_in) = None"
    by (simp add: table)
  moreover have "list_all (\<lambda>name. length (dd_lookup ?t (Some name)) = length data) ?names"
    by (simp add: list_all_iff simple_column [OF assms(1-3)])
  moreover have "dd_lookup ?t (Some (?names ! i)) ! k = PyNone"
    if "length ?row \<le> i" "i < length ?names"
  proof -
    have "?names ! i \<in> set ?names" using that(2) by simp
    from simple_column [OF assms(1-3) this] assms(4) make_row_dict_short [OF that]
    show ?thesis by simp
  qed
  moreover have "PyList (drop (length ?names) ?row) \<in> set (dd_lookup ?t None)"
    if "length ?names < length ?row"
  proof -
    have "?row \<in> set (filter (\<lambda>row. length ?names < length row)
        (map (split_fields separator) data))"
      using that assms(4) by simp
    then have "(\<lambda>row. PyList (drop (length ?names) row)) ?row \<in>
        (\<lambda>row. PyList (drop (length ?names) row)) `
          set (filter (\<lambda>row. length ?names < length row) (map (split_fields separator) data))"
      by (rule imageI)
    then show ?thesis
      unfolding table fst_conv rows_lookup_None by simp
  qed
  ultimately show ?thesis by blast
qed

theorem mismatched_line_is_padded_witness:
  "snd (aggregate CHR ''|'' (''a|b'' @ [CHR 0x0A] @ ''1'' @ [CHR 0x0A] @ ''1|2|3'')) = None \<and>
   list_all (\<lambda>name. length (dd_lookup
       (fst (aggregate CHR ''|'' (''a|b'' @ [CHR 0x0A] @ ''1'' @ [CHR 0x0A] @ ''1|2|3'')))
       (Some name)) = length [''1'', ''1|2|3'']) [''a'', ''b''] \<and>
   dd_lookup (fst (aggregate CHR ''|'' (''a|b'' @ [CHR 0x0A] @ ''1'' @ [CHR 0x0A] @ ''1|2|3'')))
     (Some ''b'') ! 0 = PyNone \<and>
   PyList [''3''] \<in> set (dd_lookup
     (fst (aggregate CHR ''|'' (''a|b'' @ [CHR 0x0A] @ ''1'' @ [CHR 0x0A] @ ''1|2|3''))) None)"
  using mismatched_line_is_padded [OF short_lines claim_separator short_simple, of 0 1]
    mismatched_line_is_padded [OF short_lines claim_separator short_simple, of 1 1]
  by (simp add: split_fields_def)

text \<open>
  C7, as stated, fails twice. The error of the conversion is numpy's ValueError, which
  shows the offending string and nothing of the column: below, the columns \<open>mean\<close> and
  \<open>stddev\<close> fail with the same error. And a value that is no number need not raise at all:
  the \<open>None\<close> that pads a short record is stored as \<open>nan\<close>, and the array is produced.
\<close>

theorem conversion_counterexample:
  "fst (convert_column
      (fst (aggregate CHR ''|''
         (''mean|stddev'' @ [CHR 0x0A] @ ''12|abc'' @ [CHR 0x0A] @ ''abc|2.5''))) ''mean'') =
     Some (Inl (ValueError ''abc'')) \<and>
   fst (convert_column
      (fst (aggregate CHR ''|''
         (''mean|stddev'' @ [CHR 0x0A] @ ''12|abc'' @ [CHR 0x0A] @ ''abc|2.5''))) ''stddev'') =
     Some (Inl (ValueError ''abc'')) \<and>
   fst (convert_column
      (fst (aggregate CHR ''|'' (''zone|mean'' @ [CHR 0x0A] @ ''1|2.5'' @ [CHR 0x0A] @ ''2'')))
      ''mean'') =
     Some (Inr [Finite False 5 (- 1), NaN])"
  unfolding conversion_table padded_table
  by (simp add: convert_column_def dd_getitem_def np_array_def is_sequence_def FLOAT_setitem_def
      float_abc float_12 float_2_5 cast_12 cast_2_5)

text \<open>
  C7, amended. For every column of the table selected by name for numeric conversion: if
  some value of the column is a string that \<open>float\<close> refuses, the conversion produces no
  array and raises a ValueError that shows the first such string of the column (the error
  has no place for the column's name); and if the column holds no such string, the
  conversion raises nothing and produces an array with one element per value, each value
  stored as \<open>FLOAT_setitem\<close> converts it, so that no value is dropped and a \<open>None\<close> (the
  padding of a short record) is stored as \<open>nan\<close>.
\<close>

theorem conversion_error_carries_value:
  "(Str s \<in> set (dd_lookup (fst (aggregate separator text_in)) (Some name)) \<and>
      PyFloat_FromString s = None \<longrightarrow>
    (\<exists>s'. first_refused (dd_lookup (fst (aggregate separator text_in)) (Some name)) = Some s' \<and>
       fst (convert_column (fst (aggregate separator text_in)) name) =
         Some (Inl (ValueError s')) \<and>
       Str s' \<in> set (dd_lookup (fst (aggregate separator text_in)) (Some name)) \<and>
       PyFloat_FromString s' = None)) \<and>
   (first_refused (dd_lookup (fst (aggregate separator text_in)) (Some name)) = None \<longrightarrow>
    (\<exists>array. fst (convert_column (fst (aggregate separator text_in)) name) = Some (Inr array) \<and>
       list_all2 (\<lambda>v x. FLOAT_setitem v = Inr x)
         (dd_lookup (fst (aggregate separator text_in)) (Some name)) array \<and>
       (k < length array \<and>
        dd_lookup (fst (aggregate separator text_in)) (Some name) ! k = PyNone \<longrightarrow>
          array ! k = NaN)))"
proof -
  let ?vals = "dd_lookup (fst (aggregate separator text_in)) (Some name)"
  let ?result = "fst (convert_column (fst (aggregate separator text_in)) name)"
  have scalar: "\<not> list_ex is_sequence ?vals"
    by (rule named_column_scalar)
  then have result: "?result = Some (setitems ?vals)"
    by (simp add: convert_column_values np_array_def)
  have refused: "\<exists>s'. first_refused ?vals = Some s' \<and> ?result = Some (Inl (ValueError s')) \<and>
      Str s' \<in> set ?vals \<and> PyFloat_FromString s' = None"
    if "Str s \<in> set ?vals" "PyFloat_FromString s = None"
  proof -
    from that have "first_refused ?vals \<noteq> None"
      by (auto simp: first_refused_None)
    then obtain s' where s': "first_refused ?vals = Some s'" by blast
    from setitems_refused [OF s' scalar] first_refused_Some [OF s'] s' result
    show ?thesis by simp
  qed
  have accepted: "\<exists>array. ?result = Some (Inr array) \<and>
      list_all2 (\<lambda>v x. FLOAT_setitem v = Inr x) ?vals array \<and>
      (k < length array \<and> ?vals ! k = PyNone \<longrightarrow> array ! k = NaN)"
    if none: "first_refused ?vals = None"
  proof -
    from setitems_array [OF none scalar] obtain array where
      array: "setitems ?vals = Inr array"
        "list_all2 (\<lambda>v x. FLOAT_setitem v = Inr x) ?vals array"
      by blast
    have "array ! k = NaN" if "k < length array" "?vals ! k = PyNone"
    proof -
      from array(2) that(1) have "FLOAT_setitem (?vals ! k) = Inr (array ! k)"
        by (simp add: list_all2_conv_all_nth)
      with that(2) show ?thesis by (simp add: FLOAT_setitem_def)
    qed
    with array result show ?thesis by simp
  qed
  from refused accepted show ?thesis by blast
qed

theorem conversion_error_carries_value_witness:
  "(\<exists>s'. fst (convert_column
        (fst (aggregate CHR ''|''
           (''mean|stddev'' @ [CHR 0x0A] @ ''12|abc'' @ [CHR 0x0A] @ ''abc|2.5''))) ''stddev'') =
        Some (Inl (ValueError s')) \<and>
      Str s' \<in> set [Str ''abc'', Str ''2.5''] \<and> PyFloat_FromString s' = None) \<and>
   (\<exists>array. fst (convert_column
        (fst (aggregate CHR ''|'' (''zone|mean'' @ [CHR 0x0A] @ ''1|2.5'' @ [CHR 0x0A] @ ''2'')))
        ''mean'') = Some (Inr array) \<and>
      list_all2 (\<lambda>v x. FLOAT_setitem v = Inr x) [Str ''2.5'', PyNone] array \<and>
      array ! 1 = NaN)"
proof -
  let ?text1 = "''mean|stddev'' @ [CHR 0x0A] @ ''12|abc'' @ [CHR 0x0A] @ ''abc|2.5''"
  let ?text2 = "''zone|mean'' @ [CHR 0x0A] @ ''1|2.5'' @ [CHR 0x0A] @ ''2''"
  have vals1: "dd_lookup (fst (aggregate CHR ''|'' ?text1)) (Some ''stddev'') =
      [Str ''abc'', Str ''2.5'']"
    unfolding conversion_table by (simp add: dd_lookup_eq)
  have vals2: "dd_lookup (fst (aggregate CHR ''|'' ?text2)) (Some ''mean'') = [Str ''2.5'', PyNone]"
    unfolding padded_table by (simp add: dd_lookup_eq)
  have accepted: "first_refused [Str ''2.5'', PyNone] = None"
    by (simp add: float_2_5)
  note refused_case = conversion_error_carries_value [of "''abc''" "CHR ''|''" ?text1 "''stddev''" 0,
      THEN conjunct1, unfolded vals1]
  note accepted_case = conversion_error_carries_value [of "''abc''" "CHR ''|''" ?text2 "''mean''" 1,
      THEN conjunct2, unfolded vals2]
  from refused_case float_abc
  have first: "\<exists>s'. fst (convert_column (fst (aggregate CHR ''|'' ?text1)) ''stddev'') =
        Some (Inl (ValueError s')) \<and>
      Str s' \<in> set [Str ''abc'', Str ''2.5''] \<and> PyFloat_FromString s' = None"
    by auto
  from accepted_case accepted obtain array where
    array: "fst (convert_column (fst (aggregate CHR ''|'' ?text2)) ''mean'') = Some (Inr array)"
      "list_all2 (\<lambda>v x. FLOAT_setitem v = Inr x) [Str ''2.5'', PyNone] array"
      "1 < length array \<and> [Str ''2.5'', PyNone] ! 1 = PyNone \<longrightarrow> array ! 1 = NaN"
    by auto
  from array(2) have "length array = 2"
    by (auto dest: list_all2_lengthD)
  with array have "fst (convert_column (fst (aggregate CHR ''|'' ?text2)) ''mean'') =
        Some (Inr array) \<and>
      list_all2 (\<lambda>v x. FLOAT_setitem v = Inr x) [Str ''2.5'', PyNone] array \<and> array ! 1 = NaN"
    by simp
  with first show ?thesis by blast
qed






text \<open>
  C9. Reading \<open>columns[name]\<close> after the loop, for a name that is not among the field names
  the reader took from the text, or for any name when the text has at most one line (a
  header and no data), does not fail: it returns the empty list, and the defaultdict
  stores the name with that empty list. An absent or misspelled column thus reads like a
  column without data.
\<close>

theorem absent_column_reads_empty:
  assumes "name \<notin> set (header_names separator text_in) \<or> length (splitlines text_in) \<le> 1"
  shows "dd_getitem (fst (aggregate separator text_in)) (Some name) =
    ([], fst (aggregate separator text_in) @ [(Some name, [])])"
proof -
  have "Some name \<notin> fst ` set (fst (aggregate separator text_in))"
  proof (cases "name \<notin> set (header_names separator text_in)")
    case True
    from aggregate_rows [of separator text_in] obtain rows where
      "fst (aggregate separator text_in) =
        append_rows (map (make_row_dict (header_names separator text_in)) rows) []"
      by blast
    with True show ?thesis
      by (auto simp: append_rows_keys make_row_dict_keys split: if_splits)
  next
    case False
    with assms have short: "length (splitlines text_in) \<le> 1" by simp
    show ?thesis
    proof (cases "splitlines text_in")
      case Nil
      then show ?thesis
        by (simp add: aggregate_def
            for_loop.simps [of _ "\<lparr>reader_input = [], fieldnames = None\<rparr>"]
            DictReader_next_def get_fieldnames_def DictReader_def Reader_iternext_def
            parse_reset_def next_nonblank_Nil)
    next
      case (Cons header rest)
      with short have "splitlines text_in = [header]" by simp
      then show ?thesis by (simp add: aggregate_header_only)
    qed
  qed
  then have "map_of (fst (aggregate separator text_in)) (Some name) = None"
    by (simp add: map_of_eq_None_iff)
  then show ?thesis
    by (simp add: dd_getitem_def)
qed

theorem absent_column_reads_empty_witness:
  "dd_getitem (fst (aggregate CHR ''|'' (''zone|mean'' @ [CHR 0x0A] @ ''1|2.5''))) (Some ''maen'') =
     ([], fst (aggregate CHR ''|'' (''zone|mean'' @ [CHR 0x0A] @ ''1|2.5'')) @ [(Some ''maen'', [])]) \<and>
   dd_getitem (fst (aggregate CHR ''|'' ''zone|mean'')) (Some ''zone'') =
     ([], fst (aggregate CHR ''|'' ''zone|mean'') @ [(Some ''zone'', [])])"
proof -
  have one_line: "length (splitlines ''zone|mean'') \<le> 1"
    by (simp add: splitlines_def is_linebreak_def LF_def CR_def)
  from absent_column_reads_empty [of "''maen''" "CHR ''|''"
      "''zone|mean'' @ [CHR 0x0A] @ ''1|2.5''"] witness_header
    absent_column_reads_empty [of "''zone''" "CHR ''|''" "''zone|mean''"] one_line
  show ?thesis by simp
qed

text \<open>
  C10, as stated, fails in its first part: the loop does not complete without error for
  every input. A data line of 131073 characters without a delimiter makes the reader raise
  \<open>field larger than field limit (131072)\<close>; the rows read before it stay in the table.
\<close>

theorem field_limit_counterexample:
  "aggregate CHR ''|''
      (''zone'' @ [CHR 0x0A] @ ''1'' @ [CHR 0x0A, CHR ''7''] @ replicate 131072 CHR ''7'') =
    ([(Some ''zone'', [Str ''1''])], Some FieldLargerThanFieldLimit)"
proof -
  have "field_limit < Suc 131072" by (simp add: field_limit_def)
  then show ?thesis by (rule long_field_error)
qed

text \<open>
  C10, amended. For every text and separator: the loop ends without an error, or with the
  reader's field-limit error, which needs a text longer than the limit, or with the
  reader's error for a NUL character, which needs one in the text (no other error can end
  it). In every case the table is the result of appending one dictionary per record read
  (\<open>data_records\<close>: the records the reader yields after the header, up to the end or the
  error), so every column named in the header has one entry per record read and all of
  them have the same length. The entry of record k in the column of the field name at
  position i (the last position of that name) is the i-th field of the record, or \<open>None\<close>
  when the record is too short; the surplus fields of each long record are gathered, as a
  list, under the key \<open>None\<close>. When the separator is not the double quote and every line is
  blank or simple, with the first one not blank, the field names are the fields of the
  first line and the records read are the fields of the other lines that are not blank.
\<close>

theorem loop_keeps_columns_aligned:
  "(snd (aggregate separator text_in) = None \<or>
      snd (aggregate separator text_in) = Some FieldLargerThanFieldLimit \<and>
      field_limit < length text_in \<or>
      snd (aggregate separator text_in) = Some LineContainsNul \<and> NUL \<in> set text_in) \<and>
   fst (aggregate separator text_in) =
     append_rows (map (make_row_dict (header_names separator text_in))
       (data_records separator text_in)) [] \<and>
   list_all (\<lambda>name. length (dd_lookup (fst (aggregate separator text_in)) (Some name)) =
       length (data_records separator text_in)) (header_names separator text_in) \<and>
   (k < length (data_records separator text_in) \<and> i < length (header_names separator text_in) \<and>
    header_names separator text_in ! i \<notin> set (drop (Suc i) (header_names separator text_in)) \<longrightarrow>
      dd_lookup (fst (aggregate separator text_in)) (Some (header_names separator text_in ! i)) ! k =
        (if i < length (data_records separator text_in ! k)
         then Str (data_records separator text_in ! k ! i) else PyNone)) \<and>
   dd_lookup (fst (aggregate separator text_in)) None =
     map (\<lambda>row. PyList (drop (length (header_names separator text_in)) row))
       (filter (\<lambda>row. length (header_names separator text_in) < length row)
         (data_records separator text_in)) \<and>
   (separator \<noteq> quotechar \<and> list_all (\<lambda>line. line = [] \<or> simple_line separator line)
      (splitlines text_in) \<and> splitlines text_in \<noteq> [] \<and> hd (splitlines text_in) \<noteq> [] \<longrightarrow>
    header_names separator text_in = split_fields separator (hd (splitlines text_in)) \<and>
    data_records separator text_in =
      map (split_fields separator) (filter (\<lambda>line. line \<noteq> []) (tl (splitlines text_in))))"
proof -
  let ?names = "header_names separator text_in"
  let ?rows = "data_records separator text_in"
  let ?t = "fst (aggregate separator text_in)"
  have error: "snd (aggregate separator text_in) = None \<or>
      snd (aggregate separator text_in) = Some FieldLargerThanFieldLimit \<and>
      field_limit < length text_in \<or>
      snd (aggregate separator text_in) = Some LineContainsNul \<and> NUL \<in> set text_in"
    by (rule aggregate_ok)
  have rows: "?t = append_rows (map (make_row_dict ?names) ?rows) []"
    by (rule aggregate_records)
  have lengths: "list_all (\<lambda>name. length (dd_lookup ?t (Some name)) = length ?rows) ?names"
    unfolding rows by (simp add: list_all_iff rows_lookup_name)
  have cells: "k < length ?rows \<and> i < length ?names \<and> ?names ! i \<notin> set (drop (Suc i) ?names) \<longrightarrow>
      dd_lookup ?t (Some (?names ! i)) ! k =
        (if i < length (?rows ! k) then Str (?rows ! k ! i) else PyNone)"
    unfolding rows by (simp add: records_cell)
  have rest: "dd_lookup ?t None =
      map (\<lambda>row. PyList (drop (length ?names) row))
        (filter (\<lambda>row. length ?names < length row) ?rows)"
    unfolding rows by (rule rows_lookup_None)
  have plain: "?names = split_fields separator (hd (splitlines text_in)) \<and>
      ?rows = map (split_fields separator) (filter (\<lambda>line. line \<noteq> []) (tl (splitlines text_in)))"
    if sep: "separator \<noteq> quotechar"
      and lines: "list_all (\<lambda>line. line = [] \<or> simple_line separator line) (splitlines text_in)"
      and ne: "splitlines text_in \<noteq> []" "hd (splitlines text_in) \<noteq> []"
  proof -
    from ne obtain header data where split: "splitlines text_in = header # data"
      by (cases "splitlines text_in") auto
    with ne(2) lines have "simple_line separator header" by simp
    then have header: "plain_line separator header"
      using split by (intro simple_plain [OF split]) simp_all
    have data: "\<forall>line \<in> set data. line = [] \<or> plain_line separator line"
      using split lines by (auto simp: list_all_iff intro: simple_plain [OF split])
    from header_names_plain [OF split sep header] data_records_plain [OF split sep header data]
    show ?thesis by (simp add: split)
  qed
  then have plain_case: "separator \<noteq> quotechar \<and>
      list_all (\<lambda>line. line = [] \<or> simple_line separator line) (splitlines text_in) \<and>
      splitlines text_in \<noteq> [] \<and> hd (splitlines text_in) \<noteq> [] \<longrightarrow>
    ?names = split_fields separator (hd (splitlines text_in)) \<and>
    ?rows = map (split_fields separator) (filter (\<lambda>line. line \<noteq> []) (tl (splitlines text_in)))"
    by blast
  note parts = error rows lengths cells rest plain_case
  show ?thesis
    by (intro conjI) (rule parts)+
qed

theorem loop_keeps_columns_aligned_witness:
  "snd (aggregate CHR ''|'' (''a|b'' @ [CHR 0x0A] @ ''1'' @ [CHR 0x0A] @ ''1|2|3'')) = None \<and>
   header_names CHR ''|'' (''a|b'' @ [CHR 0x0A] @ ''1'' @ [CHR 0x0A] @ ''1|2|3'') = [''a'', ''b''] \<and>
   data_records CHR ''|'' (''a|b'' @ [CHR 0x0A] @ ''1'' @ [CHR 0x0A] @ ''1|2|3'') =
     [[''1''], [''1'', ''2'', ''3'']] \<and>
   list_all (\<lambda>name. length (dd_lookup
       (fst (aggregate CHR ''|'' (''a|b'' @ [CHR 0x0A] @ ''1'' @ [CHR 0x0A] @ ''1|2|3'')))
       (Some name)) = 2) [''a'', ''b''] \<and>
   dd_lookup (fst (aggregate CHR ''|'' (''a|b'' @ [CHR 0x0A] @ ''1'' @ [CHR 0x0A] @ ''1|2|3'')))
     (Some ''b'') ! 0 = PyNone \<and>
   dd_lookup (fst (aggregate CHR ''|'' (''a|b'' @ [CHR 0x0A] @ ''1'' @ [CHR 0x0A] @ ''1|2|3'')))
     (Some ''b'') ! 1 = Str ''2'' \<and>
   dd_lookup (fst (aggregate CHR ''|'' (''a|b'' @ [CHR 0x0A] @ ''1'' @ [CHR 0x0A] @ ''1|2|3'')))
     None = [PyList [''3'']]"
proof -
  let ?text = "''a|b'' @ [CHR 0x0A] @ ''1'' @ [CHR 0x0A] @ ''1|2|3''"
  have limits: "length ?text \<le> field_limit" "NUL \<notin> set ?text"
    by (simp_all add: field_limit_def NUL_def)
  note first = loop_keeps_columns_aligned [of "CHR ''|''" ?text 0 1,
      unfolded short_header short_records]
  note second = loop_keeps_columns_aligned [of "CHR ''|''" ?text 1 1,
      unfolded short_header short_records]
  from first [THEN conjunct1] limits
  have "snd (aggregate CHR ''|'' ?text) = None" by simp
  moreover from first [THEN conjunct2, THEN conjunct2, THEN conjunct1]
  have "list_all (\<lambda>name. length (dd_lookup (fst (aggregate CHR ''|'' ?text)) (Some name)) = 2)
      [''a'', ''b'']"
    by simp
  moreover from first [THEN conjunct2, THEN conjunct2, THEN conjunct2, THEN conjunct1]
  have "dd_lookup (fst (aggregate CHR ''|'' ?text)) (Some ''b'') ! 0 = PyNone" by simp
  moreover from second [THEN conjunct2, THEN conjunct2, THEN conjunct2, THEN conjunct1]
  have "dd_lookup (fst (aggregate CHR ''|'' ?text)) (Some ''b'') ! 1 = Str ''2''" by simp
  moreover from first [THEN conjunct2, THEN conjunct2, THEN conjunct2, THEN conjunct2,
      THEN conjunct1]
  have "dd_lookup (fst (aggregate CHR ''|'' ?text)) None = [PyList [''3'']]" by simp
  ultimately show ?thesis
    using short_header short_records by simp
qed


end
